theory Spec2Isabelle
  imports Complex_Main
begin

section \<open>Data model of the people counter (src/app.py)\<close>

text \<open>
  The tracker of \<^verbatim>\<open>MediaPipePeopleCounter\<close> keeps, per tracked person, a dictionary
  with the keys \<^verbatim>\<open>position\<close>, \<^verbatim>\<open>last_side\<close>, \<^verbatim>\<open>frames_since_crossing\<close> and
  \<^verbatim>\<open>frames_not_seen\<close>. The side is one of the two strings \<^verbatim>\<open>'top'\<close> and
  \<^verbatim>\<open>'bottom'\<close> (only \<^verbatim>\<open>get_side\<close> ever produces one), the crossing written into a
  detection is one of \<^verbatim>\<open>'entry'\<close> and \<^verbatim>\<open>'exit'\<close>. Positions are pairs of Python
  integers (pixel coordinates), all counters are Python integers.
\<close>

datatype side = Top | Bottom

datatype crossing = Entry | Exit

type_synonym point = "int \<times> int"

record track =
  position :: point
  last_side :: side
  frames_since_crossing :: int
  frames_not_seen :: int

text \<open>
  \<^verbatim>\<open>tracked_people\<close> is a Python dict: its keys are distinct and it iterates in
  insertion order, so it is an association list here. The attributes that only serve
  the camera and the drawing (\<^verbatim>\<open>url\<close>, \<^verbatim>\<open>pose\<close>, \<^verbatim>\<open>cap\<close>, \<^verbatim>\<open>is_person_detected\<close>)
  are left out.
\<close>

record people_counter =
  door_name :: string
  entry_line :: int
  direction :: string
  entries :: int
  exits :: int
  tracked_people :: "(int \<times> track) list"
  next_id :: int
  frame_count :: int
  MATCH_DISTANCE :: int
  DEBOUNCE_FRAMES :: int
  MIN_DISTANCE_FROM_LINE :: int
  MAX_FRAMES_NOT_SEEN :: int
  PROCESS_EVERY_N_FRAMES :: int

text \<open>A detection after \<^verbatim>\<open>update_tracking\<close> has annotated it: the dict
  \<^verbatim>\<open>{'pos': .., 'id': .., 'crossing': ..}\<close>, the last key present only on a counted
  crossing.\<close>

record person =
  pos :: point
  pid :: int
  crossing :: "crossing option"

text \<open>The lines \<^verbatim>\<open>update_tracking\<close> prints, with the numbers they carry.\<close>

datatype event =
    NewPerson int
  | EntryDetected int int
  | ExitDetected int int
  | CrossingBlocked int int
  | LostTrack int

datatype error = KeyError | ZeroDivisionError

section \<open>Operations\<close>

text \<open>\<^verbatim>\<open>__init__\<close>: the counters at zero, no track, and the tuning constants.\<close>

definition init :: "string \<Rightarrow> int \<Rightarrow> string \<Rightarrow> people_counter" where
  "init name line dir =
     \<lparr>door_name = name, entry_line = line, direction = dir,
      entries = 0, exits = 0, tracked_people = [], next_id = 0, frame_count = 0,
      MATCH_DISTANCE = 80, DEBOUNCE_FRAMES = 15, MIN_DISTANCE_FROM_LINE = 30,
      MAX_FRAMES_NOT_SEEN = 150, PROCESS_EVERY_N_FRAMES = 2\<rparr>"

text \<open>\<^verbatim>\<open>get_side\<close>: \<^verbatim>\<open>"bottom" if y > self.entry_line else "top"\<close>.\<close>

definition get_side :: "people_counter \<Rightarrow> int \<Rightarrow> side" where
  "get_side s y = (if y > entry_line s then Bottom else Top)"

text \<open>Dictionary assignment \<^verbatim>\<open>d[k] = v\<close>: an existing key keeps its place, a new key
  goes last.\<close>

fun dict_set :: "(int \<times> 'v) list \<Rightarrow> int \<Rightarrow> 'v \<Rightarrow> (int \<times> 'v) list" where
  "dict_set [] k v = [(k, v)]"
| "dict_set ((k', v') # ps) k v =
     (if k' = k then (k, v) # ps else (k', v') # dict_set ps k v)"

text \<open>
  \<^verbatim>\<open>np.sqrt((pos[0] - old_pos[0])**2 + (pos[1] - old_pos[1])**2)\<close>. The source computes
  the root in double precision; the model takes the real square root. On integer
  coordinates of a video frame the two orders agree: the argument is an integer far
  below \<open>2^51\<close>, where the rounded root is strictly monotone, and the root of a perfect
  square is exact.
\<close>

definition distance :: "point \<Rightarrow> point \<Rightarrow> real" where
  "distance p q = sqrt (real_of_int ((fst p - fst q)\<^sup>2 + (snd p - snd q)\<^sup>2))"

text \<open>The first loop of \<^verbatim>\<open>update_tracking\<close>: every track ages by one frame.\<close>

definition increment_counters :: "(int \<times> track) list \<Rightarrow> (int \<times> track) list" where
  "increment_counters tp =
     map (\<lambda>(person_id, data).
            (person_id, data\<lparr>frames_since_crossing := frames_since_crossing data + 1,
                              frames_not_seen := frames_not_seen data + 1\<rparr>)) tp"

text \<open>The search for the closest tracked person: the loop over
  \<^verbatim>\<open>self.tracked_people.items()\<close> with its two variables \<^verbatim>\<open>min_dist\<close> and
  \<^verbatim>\<open>matched_id\<close>.\<close>

fun find_closest ::
  "point \<Rightarrow> (int \<times> track) list \<Rightarrow> real \<Rightarrow> int option \<Rightarrow> real \<times> int option" where
  "find_closest p [] min_dist matched_id = (min_dist, matched_id)"
| "find_closest p ((person_id, data) # rest) min_dist matched_id =
     (if distance p (position data) < min_dist
      then find_closest p rest (distance p (position data)) (Some person_id)
      else find_closest p rest min_dist matched_id)"

definition closest_id :: "people_counter \<Rightarrow> point \<Rightarrow> int option" where
  "closest_id s p =
     snd (find_closest p (tracked_people s) (real_of_int (MATCH_DISTANCE s)) None)"

text \<open>
  The body of the loop over \<^verbatim>\<open>detected_people\<close>, for one detection at \<open>p\<close>. It returns
  the counter, the set \<^verbatim>\<open>current_ids\<close>, the annotated detection and the lines printed.
  The reads \<^verbatim>\<open>self.tracked_people[matched_id]\<close> raise \<^verbatim>\<open>KeyError\<close> on a missing key.
\<close>

definition process_person ::
  "people_counter \<Rightarrow> int set \<Rightarrow> point \<Rightarrow>
     error + (people_counter \<times> int set \<times> person \<times> event list)" where
  "process_person s current_ids p =
     (case closest_id s p of
        Some matched_id \<Rightarrow>
          (case map_of (tracked_people s) matched_id of
             None \<Rightarrow> Inl KeyError
           | Some data \<Rightarrow>
               let old_side = last_side data;
                   new_side = get_side s (snd p);
                   frames_since = frames_since_crossing data;
                   can_cross = (frames_since \<ge> DEBOUNCE_FRAMES s);
                   (entries', exits', since', crossed, printed) =
                     (if old_side \<noteq> new_side \<and> can_cross then
                        (if old_side = Top \<and> new_side = Bottom then
                           (entries s + 1, exits s, 0, Some Entry,
                            [EntryDetected matched_id (entries s + 1)])
                         else if old_side = Bottom \<and> new_side = Top then
                           (entries s, exits s + 1, 0, Some Exit,
                            [ExitDetected matched_id (exits s + 1)])
                         else (entries s, exits s, frames_since, None, []))
                      else if old_side \<noteq> new_side \<and> \<not> can_cross then
                        (entries s, exits s, frames_since, None,
                         if frame_count s mod 30 = 0
                         then [CrossingBlocked matched_id frames_since] else [])
                      else (entries s, exits s, frames_since, None, []))
               in Inr (s\<lparr>entries := entries', exits := exits',
                         tracked_people :=
                           dict_set (tracked_people s) matched_id
                             \<lparr>position = p, last_side = new_side,
                              frames_since_crossing = since', frames_not_seen = 0\<rparr>\<rparr>,
                       insert matched_id current_ids,
                       \<lparr>pos = p, pid = matched_id, crossing = crossed\<rparr>,
                       printed))
      | None \<Rightarrow>
          Inr (s\<lparr>tracked_people :=
                    dict_set (tracked_people s) (next_id s)
                      \<lparr>position = p, last_side = get_side s (snd p),
                       frames_since_crossing = 999, frames_not_seen = 0\<rparr>,
                  next_id := next_id s + 1\<rparr>,
               insert (next_id s) current_ids,
               \<lparr>pos = p, pid = next_id s, crossing = None\<rparr>,
               [NewPerson (next_id s)]))"

text \<open>The loop over \<^verbatim>\<open>detected_people\<close>, in input order.\<close>

fun process_people ::
  "people_counter \<Rightarrow> int set \<Rightarrow> point list \<Rightarrow>
     error + (people_counter \<times> int set \<times> person list \<times> event list)" where
  "process_people s current_ids [] = Inr (s, current_ids, [], [])"
| "process_people s current_ids (p # ps) =
     (case process_person s current_ids p of
        Inl e \<Rightarrow> Inl e
      | Inr (s1, ids1, out, printed) \<Rightarrow>
          (case process_people s1 ids1 ps of
             Inl e \<Rightarrow> Inl e
           | Inr (s2, ids2, outs, printed') \<Rightarrow> Inr (s2, ids2, out # outs, printed @ printed')))"

text \<open>The last loop: a track stays when it was seen on this call or has been unseen
  for fewer than \<^verbatim>\<open>MAX_FRAMES_NOT_SEEN\<close> frames; every other track is deleted.\<close>

definition keep_track :: "people_counter \<Rightarrow> int set \<Rightarrow> int \<times> track \<Rightarrow> bool" where
  "keep_track s current_ids e =
     (fst e \<in> current_ids \<or> frames_not_seen (snd e) < MAX_FRAMES_NOT_SEEN s)"

definition remove_lost :: "people_counter \<Rightarrow> int set \<Rightarrow> people_counter \<times> event list" where
  "remove_lost s current_ids =
     (s\<lparr>tracked_people := filter (keep_track s current_ids) (tracked_people s)\<rparr>,
      map (\<lambda>e. LostTrack (fst e))
        (filter (\<lambda>e. \<not> keep_track s current_ids e) (tracked_people s)))"

text \<open>\<^verbatim>\<open>update_tracking\<close>: one call is one tick of the tracker.\<close>

definition update_tracking ::
  "people_counter \<Rightarrow> point list \<Rightarrow> error + (people_counter \<times> person list \<times> event list)" where
  "update_tracking s detected_people =
     (case process_people (s\<lparr>tracked_people := increment_counters (tracked_people s)\<rparr>)
             {} detected_people of
        Inl e \<Rightarrow> Inl e
      | Inr (s2, current_ids, outs, printed) \<Rightarrow>
          Inr (fst (remove_lost s2 current_ids), outs,
               printed @ snd (remove_lost s2 current_ids)))"

text \<open>\<^verbatim>\<open>reset\<close>.\<close>

definition reset :: "people_counter \<Rightarrow> people_counter" where
  "reset s = s\<lparr>entries := 0, exits := 0, tracked_people := [], next_id := 0\<rparr>"

text \<open>A sequence of calls of \<^verbatim>\<open>update_tracking\<close>, one list of detections per call; it
  collects the annotated detections of each call and everything printed.\<close>

fun run ::
  "people_counter \<Rightarrow> point list list \<Rightarrow>
     error + (people_counter \<times> person list list \<times> event list)" where
  "run s [] = Inr (s, [], [])"
| "run s (ds # dss) =
     (case update_tracking s ds of
        Inl e \<Rightarrow> Inl e
      | Inr (s1, outs, printed) \<Rightarrow>
          (case run s1 dss of
             Inl e \<Rightarrow> Inl e
           | Inr (s2, outss, printed') \<Rightarrow> Inr (s2, outs # outss, printed @ printed')))"

text \<open>
  \<^verbatim>\<open>process_frame\<close>, without the drawing: the frame counter advances, every
  \<^verbatim>\<open>PROCESS_EVERY_N_FRAMES\<close>-th frame goes to the pose detector, and a detected nose
  position is the one detection handed to \<^verbatim>\<open>update_tracking\<close>. The argument \<open>center\<close>
  is what the detector finds in the frame, if anything. The third component of the result
  is the number drawn under OCCUPANCY.
\<close>

definition process_frame ::
  "people_counter \<Rightarrow> point option \<Rightarrow> error + (people_counter \<times> person list \<times> int)" where
  "process_frame s center =
     (let s1 = s\<lparr>frame_count := frame_count s + 1\<rparr> in
      if PROCESS_EVERY_N_FRAMES s1 = 0 then Inl ZeroDivisionError
      else
        (case (if frame_count s1 mod PROCESS_EVERY_N_FRAMES s1 = 0 then center else None) of
           Some c \<Rightarrow>
             (case update_tracking s1 [c] of
                Inl e \<Rightarrow> Inl e
              | Inr (s2, outs, printed) \<Rightarrow> Inr (s2, outs, entries s2 - exits s2))
         | None \<Rightarrow> Inr (s1, [], entries s1 - exits s1)))"

text \<open>The occupancy figures: \<^verbatim>\<open>total_people\<close> of \<^verbatim>\<open>process_frame\<close>, the three sums of
  \<^verbatim>\<open>create_dashboard\<close>, and the sum the main loop prints.\<close>

definition total_people :: "people_counter \<Rightarrow> int" where
  "total_people s = entries s - exits s"

definition total_in :: "people_counter list \<Rightarrow> int" where
  "total_in counters = sum_list (map entries counters)"

definition total_out :: "people_counter list \<Rightarrow> int" where
  "total_out counters = sum_list (map exits counters)"

definition occupancy :: "people_counter list \<Rightarrow> int" where
  "occupancy counters = total_in counters - total_out counters"

definition run_total :: "people_counter list \<Rightarrow> int" where
  "run_total counters = sum_list (map (\<lambda>c. entries c - exits c) counters)"

section \<open>Notions used to state the properties\<close>

text \<open>The state invariant of the registry: the keys are distinct (it is a dict) and
  every key is below \<^verbatim>\<open>next_id\<close>.\<close>

definition wf :: "people_counter \<Rightarrow> bool" where
  "wf s = (distinct (map fst (tracked_people s)) \<and>
           list_all (\<lambda>e. fst e < next_id s) (tracked_people s))"

text \<open>The number of detections of a call that carry a given crossing, and the ids
  of the tracks a printed log reports as new.\<close>

definition count_crossings :: "crossing \<Rightarrow> person list \<Rightarrow> nat" where
  "count_crossings c outs = length (filter (\<lambda>out. crossing out = Some c) outs)"

fun created :: "event list \<Rightarrow> int list" where
  "created [] = []"
| "created (NewPerson k # evs) = k # created evs"
| "created (ev # evs) = created evs"

text \<open>Whether the crossing rule counts a detection at \<open>p\<close> for a track with data \<open>d\<close>,
  the data the loop body leaves in a matched track, and the data of a new track.\<close>

definition counted :: "people_counter \<Rightarrow> track \<Rightarrow> point \<Rightarrow> bool" where
  "counted s d p =
     (last_side d \<noteq> get_side s (snd p) \<and> DEBOUNCE_FRAMES s \<le> frames_since_crossing d)"

definition matched_track :: "people_counter \<Rightarrow> track \<Rightarrow> point \<Rightarrow> track" where
  "matched_track s d p =
     \<lparr>position = p, last_side = get_side s (snd p),
      frames_since_crossing = (if counted s d p then 0 else frames_since_crossing d),
      frames_not_seen = 0\<rparr>"

definition new_track :: "people_counter \<Rightarrow> point \<Rightarrow> track" where
  "new_track s p =
     \<lparr>position = p, last_side = get_side s (snd p),
      frames_since_crossing = 999, frames_not_seen = 0\<rparr>"

text \<open>The counted crossings of one track among the annotated detections of a call, and
  the state of a track that the debounce rule blocks.\<close>

definition crossings_of :: "int \<Rightarrow> person list \<Rightarrow> person list" where
  "crossings_of k outs = filter (\<lambda>out. pid out = k \<and> crossing out \<noteq> None) outs"

definition quiet :: "people_counter \<Rightarrow> int \<Rightarrow> bool" where
  "quiet s k =
     (case map_of (tracked_people s) k of
        Some d \<Rightarrow> frames_since_crossing d < DEBOUNCE_FRAMES s
      | None \<Rightarrow> False)"

text \<open>
  For the first crossing of a track: a track is armed on the side \<open>sd\<close> when it is stored
  on that side and its \<^verbatim>\<open>frames_since_crossing\<close> is at least the sentinel 999; it is gone when
  its id has been given out and is no longer in the registry. A list of annotated
  detections counts the first change of side away from \<open>sd\<close> when all detections before
  the first one on the other side carry no crossing and that one carries the crossing
  from \<open>sd\<close> to the other side.
\<close>

definition armed :: "people_counter \<Rightarrow> int \<Rightarrow> side \<Rightarrow> bool" where
  "armed s k sd =
     (case map_of (tracked_people s) k of
        Some d \<Rightarrow> 999 \<le> frames_since_crossing d \<and> last_side d = sd
      | None \<Rightarrow> False)"

definition gone :: "people_counter \<Rightarrow> int \<Rightarrow> bool" where
  "gone s k = (k < next_id s \<and> map_of (tracked_people s) k = None)"

fun first_change_counted :: "people_counter \<Rightarrow> side \<Rightarrow> person list \<Rightarrow> bool" where
  "first_change_counted s sd [] = True"
| "first_change_counted s sd (out # outs) =
     (if get_side s (snd (pos out)) = sd
      then crossing out = None \<and> first_change_counted s sd outs
      else crossing out = Some (if sd = Top then Entry else Exit))"

text \<open>Two states with the same line and the same tuning constants.\<close>

definition same_config :: "people_counter \<Rightarrow> people_counter \<Rightarrow> bool" where
  "same_config s s' =
     (entry_line s' = entry_line s \<and> MATCH_DISTANCE s' = MATCH_DISTANCE s \<and>
      DEBOUNCE_FRAMES s' = DEBOUNCE_FRAMES s \<and> MAX_FRAMES_NOT_SEEN s' = MAX_FRAMES_NOT_SEEN s \<and>
      frame_count s' = frame_count s)"

text \<open>Changing the two configuration fields the tracker never reads.\<close>

definition reconfigure :: "string \<Rightarrow> int \<Rightarrow> people_counter \<Rightarrow> people_counter" where
  "reconfigure dir m s = s\<lparr>direction := dir, MIN_DISTANCE_FROM_LINE := m\<rparr>"

text \<open>An example state: door 1 of \<^verbatim>\<open>DOOR_CONFIGS\<close> one frame after a person was first
  seen at \<open>(100, 200)\<close>, above the line, already aged by the first loop of the next call.\<close>

definition one_track :: people_counter where
  "one_track = (init ''Door 1'' 240 ''horizontal'')
     \<lparr>tracked_people := [(0, \<lparr>position = (100, 200), last_side = Top,
                               frames_since_crossing = 1000, frames_not_seen = 1\<rparr>)],
      next_id := 1\<rparr>"

text \<open>A second example state: a person tracked below the line at \<open>(100, 300)\<close>, one frame
  processed so far.\<close>

definition below_track :: people_counter where
  "below_track = (init ''Door 1'' 240 ''horizontal'')
     \<lparr>tracked_people := [(0, \<lparr>position = (100, 300), last_side = Bottom,
                               frames_since_crossing = 999, frames_not_seen = 0\<rparr>)],
      next_id := 1, frame_count := 1\<rparr>"



text \<open>
  Door 1 as \<^verbatim>\<open>DOOR_CONFIGS\<close> configures it, and a scenario on it: a person is seen once
  at \<open>(100, 100)\<close>, then 150 calls see nobody, then a person is seen at the same place.
\<close>

definition door1 :: people_counter where
  "door1 = init ''Door 1'' 240 ''horizontal''"

definition seen_once :: people_counter where
  "seen_once = door1
     \<lparr>tracked_people := [(0, \<lparr>position = (100, 100), last_side = Top,
                               frames_since_crossing = 999, frames_not_seen = 0\<rparr>)],
      next_id := 1\<rparr>"

definition lost_and_back :: "point list list" where
  "lost_and_back = [(100, 100)] # replicate 150 [] @ [[(100, 100)]]"

section \<open>Evaluating the distance test\<close>

text \<open>The comparisons of \<^verbatim>\<open>dist < min_dist\<close>, brought back to integers: against the
  threshold, and against the distance of an earlier candidate.\<close>

lemma distance_less_int:
  "0 < m \<Longrightarrow>
   distance p q < real_of_int m \<longleftrightarrow> (fst p - fst q)\<^sup>2 + (snd p - snd q)\<^sup>2 < m\<^sup>2"
proof -
  assume m: "0 < m"
  have "real_of_int m = sqrt (real_of_int (m\<^sup>2))"
    using m by (simp add: real_sqrt_abs)
  then show ?thesis
    unfolding distance_def by (metis of_int_less_iff real_sqrt_less_iff)
qed

lemma distance_less_numeral:
  "distance p q < numeral n \<longleftrightarrow>
     (fst p - fst q)\<^sup>2 + (snd p - snd q)\<^sup>2 < (numeral n)\<^sup>2"
  using distance_less_int [of "numeral n" p q] by simp

lemma distance_less_distance:
  "distance p q < distance p r \<longleftrightarrow>
     (fst p - fst q)\<^sup>2 + (snd p - snd q)\<^sup>2 < (fst p - fst r)\<^sup>2 + (snd p - snd r)\<^sup>2"
  unfolding distance_def by (simp only: real_sqrt_less_iff of_int_less_iff)

lemmas tick_simps = distance_less_numeral distance_less_distance closest_id_def
  process_person_def update_tracking_def remove_lost_def keep_track_def
  increment_counters_def get_side_def

section \<open>The dictionary and the search for the closest track\<close>

lemma map_of_dict_set: "map_of (dict_set ps k v) = (map_of ps)(k \<mapsto> v)"
  by (induction ps k v rule: dict_set.induct) auto



lemma find_closest_spec:
  assumes "find_closest p tp m mid = (m', mid')"
  shows "m' \<le> m \<and> (\<forall>e\<in>set tp. m' \<le> distance p (position (snd e))) \<and>
         (m' < m \<longrightarrow> (\<exists>e\<in>set tp. mid' = Some (fst e) \<and> m' = distance p (position (snd e)))) \<and>
         (m' = m \<longrightarrow> mid' = mid)"
  using assms
proof (induction tp arbitrary: m mid)
  case Nil
  then show ?case by simp
next
  case (Cons e tp)
  obtain k d where e: "e = (k, d)" by (cases e)
  show ?case
  proof (cases "distance p (position d) < m")
    case True
    with Cons.prems e have "find_closest p tp (distance p (position d)) (Some k) = (m', mid')"
      by simp
    from Cons.IH [OF this] True e show ?thesis by (auto simp: less_le)
  next
    case False
    with Cons.prems e have "find_closest p tp m mid = (m', mid')" by simp
    from Cons.IH [OF this] False e show ?thesis by auto
  qed
qed

lemma closest_id_Some:
  assumes "closest_id s p = Some k"
  shows "\<exists>d. (k, d) \<in> set (tracked_people s) \<and>
             distance p (position d) < real_of_int (MATCH_DISTANCE s) \<and>
             (\<forall>e\<in>set (tracked_people s). distance p (position d) \<le> distance p (position (snd e)))"
proof -
  obtain m' where fc: "find_closest p (tracked_people s) (real_of_int (MATCH_DISTANCE s)) None = (m', Some k)"
    using assms unfolding closest_id_def by (metis prod.collapse)
  from find_closest_spec [OF fc] show ?thesis
    by (cases "m' = real_of_int (MATCH_DISTANCE s)") (auto simp: less_le)
qed


lemma closest_id_in_dict:
  assumes "closest_id s p = Some k"
  shows "\<exists>d. map_of (tracked_people s) k = Some d"
proof -
  from closest_id_Some [OF assms] have "k \<in> fst ` set (tracked_people s)" by force
  then show ?thesis by (metis domD dom_map_of_conv_image_fst)
qed


lemma process_person_matched:
  assumes "closest_id s p = Some k" and "map_of (tracked_people s) k = Some d"
  shows "\<exists>printed.
     process_person s ids p =
       Inr (s\<lparr>entries :=
                 (if last_side d \<noteq> get_side s (snd p) \<and> DEBOUNCE_FRAMES s \<le> frames_since_crossing d \<and>
                     last_side d = Top then entries s + 1 else entries s),
               exits :=
                 (if last_side d \<noteq> get_side s (snd p) \<and> DEBOUNCE_FRAMES s \<le> frames_since_crossing d \<and>
                     last_side d = Bottom then exits s + 1 else exits s),
               tracked_people :=
                 dict_set (tracked_people s) k
                   \<lparr>position = p, last_side = get_side s (snd p),
                    frames_since_crossing =
                      (if last_side d \<noteq> get_side s (snd p) \<and> DEBOUNCE_FRAMES s \<le> frames_since_crossing d
                       then 0 else frames_since_crossing d),
                    frames_not_seen = 0\<rparr>\<rparr>,
            insert k ids,
            \<lparr>pos = p, pid = k,
             crossing =
               (if last_side d \<noteq> get_side s (snd p) \<and> DEBOUNCE_FRAMES s \<le> frames_since_crossing d
                then Some (if last_side d = Top then Entry else Exit) else None)\<rparr>,
            printed)"
  using assms
  by (cases "last_side d"; cases "get_side s (snd p)")
     (simp_all add: process_person_def Let_def)

lemma process_person_new:
  assumes "closest_id s p = None"
  shows "process_person s ids p =
       Inr (s\<lparr>tracked_people :=
                 dict_set (tracked_people s) (next_id s)
                   \<lparr>position = p, last_side = get_side s (snd p),
                    frames_since_crossing = 999, frames_not_seen = 0\<rparr>,
               next_id := next_id s + 1\<rparr>,
            insert (next_id s) ids,
            \<lparr>pos = p, pid = next_id s, crossing = None\<rparr>,
            [NewPerson (next_id s)])"
  using assms by (simp add: process_person_def)

lemma wf_fresh: "wf s \<Longrightarrow> next_id s \<notin> fst ` set (tracked_people s)"
  by (auto simp: wf_def list_all_iff)

lemma wf_map_of: "wf s \<Longrightarrow> (k, d) \<in> set (tracked_people s) \<Longrightarrow> map_of (tracked_people s) k = Some d"
  by (simp add: wf_def)

section \<open>The loop body by cases; the loops return\<close>

lemma created_append: "created (xs @ ys) = created xs @ created ys"
  by (induction xs rule: created.induct) auto

lemma created_lost: "created (map (\<lambda>e. LostTrack (f e)) xs) = []"
  by (induction xs) auto

lemma process_person_elim:
  assumes "process_person s ids p = Inr (s', ids', out, printed)"
  obtains (matched) k d where
      "closest_id s p = Some k" and "map_of (tracked_people s) k = Some d" and
      "s' = s\<lparr>entries := (if counted s d p \<and> last_side d = Top then entries s + 1 else entries s),
               exits := (if counted s d p \<and> last_side d = Bottom then exits s + 1 else exits s),
               tracked_people := dict_set (tracked_people s) k (matched_track s d p)\<rparr>" and
      "ids' = insert k ids" and
      "out = \<lparr>pos = p, pid = k,
              crossing = (if counted s d p
                          then Some (if last_side d = Top then Entry else Exit) else None)\<rparr>" and
      "created printed = []" and "\<And>j. LostTrack j \<notin> set printed"
  | (new) 
      "closest_id s p = None" and
      "s' = s\<lparr>tracked_people := dict_set (tracked_people s) (next_id s) (new_track s p),
               next_id := next_id s + 1\<rparr>" and
      "ids' = insert (next_id s) ids" and
      "out = \<lparr>pos = p, pid = next_id s, crossing = None\<rparr>" and
      "printed = [NewPerson (next_id s)]"
proof (cases "closest_id s p")
  case None
  from process_person_new [OF None, of ids] assms new [OF None] show thesis
    by (simp add: new_track_def)
next
  case (Some k)
  from closest_id_in_dict [OF Some] obtain d where d: "map_of (tracked_people s) k = Some d" ..
  have "\<exists>pr. process_person s ids p =
     Inr (s\<lparr>entries := (if counted s d p \<and> last_side d = Top then entries s + 1 else entries s),
               exits := (if counted s d p \<and> last_side d = Bottom then exits s + 1 else exits s),
               tracked_people := dict_set (tracked_people s) k (matched_track s d p)\<rparr>,
          insert k ids,
          \<lparr>pos = p, pid = k,
              crossing = (if counted s d p
                          then Some (if last_side d = Top then Entry else Exit) else None)\<rparr>, pr)
     \<and> created pr = [] \<and> (\<forall>j. LostTrack j \<notin> set pr)"
    using Some d
    by (cases "last_side d"; cases "get_side s (snd p)")
       (simp_all add: process_person_def Let_def counted_def matched_track_def)
  with assms matched [OF Some d] show thesis
    by auto
qed

lemma process_person_total: "\<exists>r. process_person s ids p = Inr r"
proof (cases "closest_id s p")
  case None
  then show ?thesis using process_person_new by blast
next
  case (Some k)
  from closest_id_in_dict [OF Some] obtain d where d: "map_of (tracked_people s) k = Some d" ..
  from process_person_matched [OF Some d] show ?thesis by blast
qed

lemma process_people_total: "\<exists>r. process_people s ids ps = Inr r"
proof (induction ps arbitrary: s ids)
  case Nil
  show ?case by simp
next
  case (Cons p ps)
  obtain s1 ids1 out pr where 1: "process_person s ids p = Inr (s1, ids1, out, pr)"
    using process_person_total [of s ids p] by (metis prod_cases4)
  obtain r where 2: "process_people s1 ids1 ps = Inr r"
    using Cons.IH by blast
  show ?case using 1 2 by (cases r) auto
qed

lemma update_tracking_total: "\<exists>r. update_tracking s ds = Inr r"
proof -
  obtain r where "process_people (s\<lparr>tracked_people := increment_counters (tracked_people s)\<rparr>) {} ds = Inr r"
    using process_people_total by blast
  then show ?thesis by (cases r) (simp add: update_tracking_def)
qed

lemma run_total_result: "\<exists>r. run s dss = Inr r"
proof (induction dss arbitrary: s)
  case Nil
  show ?case by simp
next
  case (Cons ds dss)
  obtain s1 outs pr where 1: "update_tracking s ds = Inr (s1, outs, pr)"
    using update_tracking_total [of s ds] by (metis prod_cases3)
  obtain r where 2: "run s1 dss = Inr r" using Cons.IH by blast
  show ?case using 1 2 by (cases r) auto
qed

text \<open>Elimination rules for the loops.\<close>

lemma process_people_Cons_elim:
  assumes "process_people s ids (p # ps) = Inr (s', ids', outs, printed)"
  obtains s1 ids1 out pr outs' pr' where
    "process_person s ids p = Inr (s1, ids1, out, pr)" and
    "process_people s1 ids1 ps = Inr (s', ids', outs', pr')" and
    "outs = out # outs'" and "printed = pr @ pr'"
  using assms by (auto split: sum.splits)

lemma update_tracking_elim:
  assumes "update_tracking s ds = Inr (s', outs, printed)"
  obtains s2 ids pr where
    "process_people (s\<lparr>tracked_people := increment_counters (tracked_people s)\<rparr>) {} ds =
       Inr (s2, ids, outs, pr)" and
    "s' = s2\<lparr>tracked_people := filter (keep_track s2 ids) (tracked_people s2)\<rparr>" and
    "printed = pr @ map (\<lambda>e. LostTrack (fst e))
                      (filter (\<lambda>e. \<not> keep_track s2 ids e) (tracked_people s2))"
  using assms by (auto simp: update_tracking_def remove_lost_def split: sum.splits)

lemma run_Cons_elim:
  assumes "run s (ds # dss) = Inr (s', outss, printed)"
  obtains s1 outs pr outss' pr' where
    "update_tracking s ds = Inr (s1, outs, pr)" and
    "run s1 dss = Inr (s', outss', pr')" and
    "outss = outs # outss'" and "printed = pr @ pr'"
  using assms by (auto split: sum.splits)

section \<open>What every call preserves\<close>

lemma keys_dict_set: "fst ` set (dict_set ps k v) = insert k (fst ` set ps)"
  by (induction ps k v rule: dict_set.induct) auto

lemma distinct_dict_set: "distinct (map fst ps) \<Longrightarrow> distinct (map fst (dict_set ps k v))"
  by (induction ps k v rule: dict_set.induct) (auto simp: keys_dict_set)

lemma side_neq_Top: "(x \<noteq> Top) = (x = Bottom)"
  by (cases x) auto

lemma wf_iff:
  "wf s \<longleftrightarrow> distinct (map fst (tracked_people s)) \<and> (\<forall>k\<in>fst ` set (tracked_people s). k < next_id s)"
  by (auto simp: wf_def list_all_iff)

lemma same_config_refl: "same_config s s"
  by (simp add: same_config_def)

lemma same_config_trans: "same_config s s1 \<Longrightarrow> same_config s1 s2 \<Longrightarrow> same_config s s2"
  by (simp add: same_config_def)

lemma same_config_get_side: "same_config s s' \<Longrightarrow> get_side s' y = get_side s y"
  by (simp add: same_config_def get_side_def)

lemma process_person_inv:
  assumes "process_person s ids p = Inr (s', ids', out, printed)"
  shows "same_config s s'" and "next_id s \<le> next_id s'" and "wf s \<Longrightarrow> wf s'"
    and "ids' = insert (pid out) ids"
    and "fst ` set (tracked_people s') = insert (pid out) (fst ` set (tracked_people s))"
    and "k \<noteq> pid out \<Longrightarrow> map_of (tracked_people s') k = map_of (tracked_people s) k"
    and "entries s' = entries s + (if crossing out = Some Entry then 1 else 0)"
    and "exits s' = exits s + (if crossing out = Some Exit then 1 else 0)"
    and "pos out = p"
proof -
  show "same_config s s'"
    using assms by (cases rule: process_person_elim) (simp_all add: same_config_def)
  show "next_id s \<le> next_id s'"
    using assms by (cases rule: process_person_elim) simp_all
  show "ids' = insert (pid out) ids"
    using assms by (cases rule: process_person_elim) simp_all
  show keys: "fst ` set (tracked_people s') = insert (pid out) (fst ` set (tracked_people s))"
    using assms by (cases rule: process_person_elim) (simp_all add: keys_dict_set)
  show "k \<noteq> pid out \<Longrightarrow> map_of (tracked_people s') k = map_of (tracked_people s) k"
    using assms by (cases rule: process_person_elim) (simp_all add: map_of_dict_set)
  show "entries s' = entries s + (if crossing out = Some Entry then 1 else 0)"
    using assms by (cases rule: process_person_elim) (simp_all)
  show "exits s' = exits s + (if crossing out = Some Exit then 1 else 0)"
    using assms by (cases rule: process_person_elim) (simp_all add: side_neq_Top)
  show "pos out = p"
    using assms by (cases rule: process_person_elim) (simp_all)
  show "wf s'" if wf: "wf s"
    using assms
  proof (cases rule: process_person_elim)
    case (matched k d)
    then have "k \<in> fst ` set (tracked_people s)"
      by (metis domI dom_map_of_conv_image_fst)
    with wf matched(3) show ?thesis
      by (auto simp: wf_iff keys_dict_set distinct_dict_set)
  next
    case new
    with wf show ?thesis
      by (auto simp: wf_iff keys_dict_set distinct_dict_set)
  qed
qed

lemma process_people_inv:
  assumes "process_people s ids ps = Inr (s', ids', outs, printed)"
  shows "same_config s s' \<and> next_id s \<le> next_id s' \<and> (wf s \<longrightarrow> wf s') \<and>
         ids' = ids \<union> pid ` set outs \<and>
         fst ` set (tracked_people s') = fst ` set (tracked_people s) \<union> pid ` set outs \<and>
         (k \<notin> pid ` set outs \<longrightarrow> map_of (tracked_people s') k = map_of (tracked_people s) k) \<and>
         entries s' = entries s + int (count_crossings Entry outs) \<and>
         exits s' = exits s + int (count_crossings Exit outs) \<and>
         map pos outs = ps"
  using assms
proof (induction ps arbitrary: s ids outs printed)
  case Nil
  then show ?case by (auto simp: same_config_refl count_crossings_def)
next
  case (Cons p ps)
  from Cons.prems obtain s1 ids1 out pr outs' pr' where
    1: "process_person s ids p = Inr (s1, ids1, out, pr)" and
    2: "process_people s1 ids1 ps = Inr (s', ids', outs', pr')" and
    o: "outs = out # outs'" and "printed = pr @ pr'"
    by (rule process_people_Cons_elim)
  note a = process_person_inv [OF 1]
  note b = Cons.IH [OF 2]
  have "same_config s s'" using a(1) b same_config_trans by blast
  moreover have "next_id s \<le> next_id s'" using a(2) b by linarith
  moreover have "wf s \<longrightarrow> wf s'" using a(3) b by blast
  moreover have "ids' = ids \<union> pid ` set outs" using a(4) b o by auto
  moreover have "fst ` set (tracked_people s') = fst ` set (tracked_people s) \<union> pid ` set outs"
    using a(5) b o by auto
  moreover have "k \<notin> pid ` set outs \<longrightarrow> map_of (tracked_people s') k = map_of (tracked_people s) k"
    using a(6) [of k] b o by auto
  moreover have "entries s' = entries s + int (count_crossings Entry outs)"
    using a(7) b o by (simp add: count_crossings_def)
  moreover have "exits s' = exits s + int (count_crossings Exit outs)"
    using a(8) b o by (simp add: count_crossings_def)
  moreover have "map pos outs = p # ps" using a(9) b o by simp
  ultimately show ?case by blast
qed

lemma process_people_invs:
  assumes "process_people s ids ps = Inr (s', ids', outs, printed)"
  shows "same_config s s'" and "next_id s \<le> next_id s'" and "wf s \<Longrightarrow> wf s'"
    and "ids' = ids \<union> pid ` set outs"
    and "fst ` set (tracked_people s') = fst ` set (tracked_people s) \<union> pid ` set outs"
    and "k \<notin> pid ` set outs \<Longrightarrow> map_of (tracked_people s') k = map_of (tracked_people s) k"
    and "entries s' = entries s + int (count_crossings Entry outs)"
    and "exits s' = exits s + int (count_crossings Exit outs)"
    and "map pos outs = ps"
  using process_people_inv [OF assms, of k] by blast+

lemma keys_increment_counters: "map fst (increment_counters tp) = map fst tp"
  by (induction tp) (auto simp: increment_counters_def)

lemma map_of_increment_counters:
  "map_of (increment_counters tp) k =
     map_option (\<lambda>d. d\<lparr>frames_since_crossing := frames_since_crossing d + 1,
                        frames_not_seen := frames_not_seen d + 1\<rparr>) (map_of tp k)"
  by (induction tp) (auto simp: increment_counters_def)

lemma map_of_filter_distinct:
  "distinct (map fst ps) \<Longrightarrow>
   map_of (filter P ps) k = (case map_of ps k of None \<Rightarrow> None | Some v \<Rightarrow> if P (k, v) then Some v else None)"
proof (induction ps)
  case Nil
  show ?case by simp
next
  case (Cons e ps)
  obtain k' v' where e: "e = (k', v')" by (cases e)
  have notin: "map_of ps k' = None"
    using Cons.prems e by (simp add: map_of_eq_None_iff)
  show ?case using Cons e notin by (auto split: option.splits)
qed

lemma update_tracking_inv:
  assumes "update_tracking s ds = Inr (s', outs, printed)"
  shows "same_config s s' \<and> next_id s \<le> next_id s' \<and> (wf s \<longrightarrow> wf s') \<and>
         entries s' = entries s + int (count_crossings Entry outs) \<and>
         exits s' = exits s + int (count_crossings Exit outs) \<and>
         map pos outs = ds"
proof -
  let ?s0 = "s\<lparr>tracked_people := increment_counters (tracked_people s)\<rparr>"
  from assms obtain s2 ids pr where
    pp: "process_people ?s0 {} ds = Inr (s2, ids, outs, pr)" and
    s': "s' = s2\<lparr>tracked_people := filter (keep_track s2 ids) (tracked_people s2)\<rparr>"
    by (rule update_tracking_elim)
  note a1 = process_people_invs(1) [OF pp] and a2 = process_people_invs(2) [OF pp]
    and a3 = process_people_invs(3) [OF pp] and a4 = process_people_invs(7) [OF pp]
    and a5 = process_people_invs(8) [OF pp] and a6 = process_people_invs(9) [OF pp]
  have c0: "same_config s ?s0" by (simp add: same_config_def)
  have c2: "same_config s2 s'" using s' by (simp add: same_config_def)
  have wf0: "wf s \<Longrightarrow> wf ?s0"
    by (simp add: wf_iff keys_increment_counters flip: set_map)
  have wf2: "wf s2 \<Longrightarrow> wf s'"
    using s' by (auto simp: wf_iff distinct_map_filter)
  have e: "entries s' = entries s2" "exits s' = exits s2" "next_id s' = next_id s2"
    using s' by simp_all
  have "same_config s s'"
    using a1 c0 c2 same_config_trans by blast
  moreover have "next_id s \<le> next_id s'"
    using a2 e(3) by simp
  moreover have "wf s \<longrightarrow> wf s'"
    using a3 wf0 wf2 by blast
  moreover have "entries s' = entries s + int (count_crossings Entry outs)"
    using a4 e(1) by simp
  moreover have "exits s' = exits s + int (count_crossings Exit outs)"
    using a5 e(2) by simp
  ultimately show ?thesis using a6 by blast
qed

lemma update_tracking_invs:
  assumes "update_tracking s ds = Inr (s', outs, printed)"
  shows "same_config s s'" and "next_id s \<le> next_id s'" and "wf s \<Longrightarrow> wf s'"
    and "entries s' = entries s + int (count_crossings Entry outs)"
    and "exits s' = exits s + int (count_crossings Exit outs)"
    and "map pos outs = ds"
  using update_tracking_inv [OF assms] by blast+

lemma wf_init: "wf (init name line dir)"
  by (simp add: wf_def init_def)

lemma wf_reset: "wf (reset s)"
  by (simp add: wf_def reset_def)

lemma run_inv:
  assumes "run s dss = Inr (s', outss, printed)"
  shows "same_config s s' \<and> next_id s \<le> next_id s' \<and> (wf s \<longrightarrow> wf s') \<and>
         map (map pos) outss = dss"
  using assms
proof (induction dss arbitrary: s outss printed)
  case Nil
  then show ?case by (simp add: same_config_refl)
next
  case (Cons ds dss)
  from Cons.prems obtain s1 outs pr outss' pr' where
    1: "update_tracking s ds = Inr (s1, outs, pr)" and
    2: "run s1 dss = Inr (s', outss', pr')" and
    o: "outss = outs # outss'"
    by (rule run_Cons_elim)
  note a = update_tracking_invs [OF 1]
  from Cons.IH [OF 2] have
    b: "same_config s1 s'" "next_id s1 \<le> next_id s'" "wf s1 \<longrightarrow> wf s'" "map (map pos) outss' = dss"
    by blast+
  have "same_config s s'" using a(1) b(1) by (rule same_config_trans)
  moreover have "next_id s \<le> next_id s'" using a(2) b(2) by simp
  moreover have "wf s \<longrightarrow> wf s'" using a(3) b(3) by blast
  moreover have "map (map pos) outss = ds # dss" using a(6) b(4) o by simp
  ultimately show ?case by blast
qed

section \<open>The crossing rule for a matched track\<close>



section \<open>Matching a detection\<close>



section \<open>At most one crossing per track and call\<close>

lemma same_config_DEBOUNCE: "same_config s s' \<Longrightarrow> DEBOUNCE_FRAMES s' = DEBOUNCE_FRAMES s"
  by (simp add: same_config_def)

lemma quiet_iff:
  "quiet s k \<longleftrightarrow>
     (\<exists>d. map_of (tracked_people s) k = Some d \<and> frames_since_crossing d < DEBOUNCE_FRAMES s)"
  by (simp add: quiet_def split: option.splits)

lemma process_person_quiet:
  assumes "wf s" and "process_person s ids p = Inr (s', ids', out, printed)"
  shows "quiet s k \<Longrightarrow> quiet s' k \<and> \<not> (pid out = k \<and> crossing out \<noteq> None)"
    and "0 < DEBOUNCE_FRAMES s \<Longrightarrow> pid out = k \<Longrightarrow> crossing out \<noteq> None \<Longrightarrow> quiet s' k"
proof -
  show "quiet s' k \<and> \<not> (pid out = k \<and> crossing out \<noteq> None)" if q: "quiet s k"
    using assms(2)
  proof (cases rule: process_person_elim)
    case (matched k' d)
    show ?thesis
    proof (cases "k' = k")
      case True
      with q matched(2) have "\<not> counted s d p"
        by (simp add: quiet_iff counted_def)
      with q matched True show ?thesis
        by (auto simp: quiet_iff map_of_dict_set matched_track_def)
    next
      case False
      with q matched show ?thesis
        by (auto simp: quiet_iff map_of_dict_set)
    qed
  next
    case new
    from q have "k \<in> fst ` set (tracked_people s)"
      by (auto simp: quiet_iff dom_map_of_conv_image_fst [symmetric])
    with wf_fresh [OF assms(1)] have "k \<noteq> next_id s" by blast
    with q new show ?thesis
      by (auto simp: quiet_iff map_of_dict_set)
  qed
  show "quiet s' k" if "0 < DEBOUNCE_FRAMES s" and "pid out = k" and "crossing out \<noteq> None"
    using assms(2)
  proof (cases rule: process_person_elim)
    case (matched k' d)
    with that show ?thesis
      by (auto simp: quiet_iff map_of_dict_set matched_track_def split: if_splits)
  next
    case new
    with that show ?thesis by simp
  qed
qed

lemma process_people_one_crossing:
  assumes "wf s" and "0 < DEBOUNCE_FRAMES s"
    and "process_people s ids ps = Inr (s', ids', outs, printed)"
  shows "length (crossings_of k outs) \<le> 1 \<and> (quiet s k \<longrightarrow> crossings_of k outs = [])"
  using assms
proof (induction ps arbitrary: s ids outs printed)
  case Nil
  then show ?case by (auto simp: crossings_of_def)
next
  case (Cons p ps)
  from Cons.prems(3) obtain s1 ids1 out pr outs' pr' where
    1: "process_person s ids p = Inr (s1, ids1, out, pr)" and
    2: "process_people s1 ids1 ps = Inr (s', ids', outs', pr')" and
    o: "outs = out # outs'"
    by (rule process_people_Cons_elim)
  have wf1: "wf s1" using process_person_inv(3) [OF 1 Cons.prems(1)] .
  have deb1: "0 < DEBOUNCE_FRAMES s1"
    using same_config_DEBOUNCE [OF process_person_inv(1) [OF 1]] Cons.prems(2) by simp
  from Cons.IH [OF wf1 deb1 2] have
    ih1: "length (crossings_of k outs') \<le> 1" and ih2: "quiet s1 k \<Longrightarrow> crossings_of k outs' = []"
    by blast+
  show ?case
  proof (cases "pid out = k \<and> crossing out \<noteq> None")
    case True
    then have "quiet s1 k"
      using process_person_quiet(2) [OF Cons.prems(1) 1 Cons.prems(2)] by blast
    then have "crossings_of k outs' = []" by (rule ih2)
    moreover have "\<not> quiet s k"
      using process_person_quiet(1) [OF Cons.prems(1) 1] True by blast
    ultimately show ?thesis using o True by (simp add: crossings_of_def)
  next
    case False
    then have eq: "crossings_of k outs = crossings_of k outs'"
      using o by (auto simp: crossings_of_def)
    have "quiet s k \<Longrightarrow> crossings_of k outs' = []"
      using process_person_quiet(1) [OF Cons.prems(1) 1] ih2 by blast
    with eq ih1 show ?thesis by simp
  qed
qed

lemma wf_increment_counters:
  "wf s \<Longrightarrow> wf (s\<lparr>tracked_people := increment_counters (tracked_people s)\<rparr>)"
  by (simp add: wf_iff keys_increment_counters flip: set_map)

lemma count_crossings_sum:
  "count_crossings Entry outs + count_crossings Exit outs =
     length (filter (\<lambda>out. crossing out \<noteq> None) outs)"
proof (induction outs)
  case Nil
  show ?case by (simp add: count_crossings_def)
next
  case (Cons out outs)
  then show ?case
    by (cases "crossing out"; cases "the (crossing out)") (auto simp: count_crossings_def)
qed

text \<open>
  Claim C6. In one call of \<^verbatim>\<open>update_tracking\<close> at most one crossing is counted for any
  track, however many detections of the call are bound to it: a counted crossing sets the
  track's \<^verbatim>\<open>frames_since_crossing\<close> to 0, which stays below \<^verbatim>\<open>DEBOUNCE_FRAMES\<close> until the
  next call. The growth of \<^verbatim>\<open>entries + exits\<close> over the call is the number of detections
  that carry a crossing. \<^verbatim>\<open>DEBOUNCE_FRAMES\<close> is 15 in every counter \<^verbatim>\<open>__init__\<close> builds, and
  every state reached from there keeps the registry's keys below \<^verbatim>\<open>next_id\<close>.
\<close>

theorem one_crossing_per_track_per_call:
  assumes "wf s" and "0 < DEBOUNCE_FRAMES s"
    and "update_tracking s ds = Inr (s', outs, printed)"
  shows "length (filter (\<lambda>out. pid out = k \<and> crossing out \<noteq> None) outs) \<le> 1 \<and>
         (entries s' + exits s') - (entries s + exits s) =
           int (length (filter (\<lambda>out. crossing out \<noteq> None) outs))"
proof -
  let ?s0 = "s\<lparr>tracked_people := increment_counters (tracked_people s)\<rparr>"
  from assms(3) obtain s2 ids pr where
    pp: "process_people ?s0 {} ds = Inr (s2, ids, outs, pr)"
    by (rule update_tracking_elim)
  have "0 < DEBOUNCE_FRAMES ?s0" using assms(2) by simp
  from process_people_one_crossing [OF wf_increment_counters [OF assms(1)] this pp, of k]
  have "length (crossings_of k outs) \<le> 1" by blast
  moreover have "(entries s' + exits s') - (entries s + exits s) =
      int (count_crossings Entry outs + count_crossings Exit outs)"
    using update_tracking_invs(4,5) [OF assms(3)] by simp
  ultimately show ?thesis
    by (simp add: crossings_of_def count_crossings_sum)
qed

theorem one_crossing_per_track_per_call_witness:
  "wf (init ''Door 1'' 240 ''horizontal'') \<and>
   0 < DEBOUNCE_FRAMES (init ''Door 1'' 240 ''horizontal'') \<and>
   (\<exists>s' printed.
      update_tracking (init ''Door 1'' 240 ''horizontal'') [(100, 200), (100, 250), (100, 230)] =
        Inr (s', [\<lparr>pos = (100, 200), pid = 0, crossing = None\<rparr>,
                  \<lparr>pos = (100, 250), pid = 0, crossing = Some Entry\<rparr>,
                  \<lparr>pos = (100, 230), pid = 0, crossing = None\<rparr>], printed) \<and>
      entries s' + exits s' = 1)"
proof -
  have h1: "wf (init ''Door 1'' 240 ''horizontal'')" by (rule wf_init)
  have h2: "0 < DEBOUNCE_FRAMES (init ''Door 1'' 240 ''horizontal'')" by (simp add: init_def)
  obtain s' printed where
    h3: "update_tracking (init ''Door 1'' 240 ''horizontal'') [(100, 200), (100, 250), (100, 230)] =
        Inr (s', [\<lparr>pos = (100, 200), pid = 0, crossing = None\<rparr>,
                  \<lparr>pos = (100, 250), pid = 0, crossing = Some Entry\<rparr>,
                  \<lparr>pos = (100, 230), pid = 0, crossing = None\<rparr>], printed)"
    by (simp add: init_def tick_simps)
  from one_crossing_per_track_per_call [OF h1 h2 h3, of 0]
  have "entries s' + exits s' = 1" by (simp add: init_def)
  with h1 h2 h3 show ?thesis by blast
qed

section \<open>Calls without detections\<close>

lemma run_append:
  "run s (dss @ dss') =
     (case run s dss of
        Inl e \<Rightarrow> Inl e
      | Inr (s1, outss, printed) \<Rightarrow>
          (case run s1 dss' of
             Inl e \<Rightarrow> Inl e
           | Inr (s2, outss', printed') \<Rightarrow> Inr (s2, outss @ outss', printed @ printed')))"
proof (induction dss arbitrary: s)
  case Nil
  show ?case by (simp split: sum.splits)
next
  case (Cons ds dss)
  show ?case by (simp add: Cons.IH split: sum.splits)
qed

lemma idle_call:
  assumes "tracked_people s = [(k, d)]" and "frames_not_seen d + 1 < MAX_FRAMES_NOT_SEEN s"
  shows "update_tracking s [] =
           Inr (s\<lparr>tracked_people :=
                    [(k, d\<lparr>frames_since_crossing := frames_since_crossing d + 1,
                           frames_not_seen := frames_not_seen d + 1\<rparr>)]\<rparr>, [], [])"
  using assms by (simp add: update_tracking_def remove_lost_def keep_track_def increment_counters_def)

lemma idle_run:
  assumes "tracked_people s = [(k, d)]" and "frames_not_seen d + int n < MAX_FRAMES_NOT_SEEN s"
  shows "run s (replicate n []) =
           Inr (s\<lparr>tracked_people :=
                    [(k, d\<lparr>frames_since_crossing := frames_since_crossing d + int n,
                           frames_not_seen := frames_not_seen d + int n\<rparr>)]\<rparr>,
                replicate n [], [])"
  using assms
proof (induction n arbitrary: s d)
  case 0
  then show ?case by simp
next
  case (Suc n)
  let ?d1 = "d\<lparr>frames_since_crossing := frames_since_crossing d + 1,
                frames_not_seen := frames_not_seen d + 1\<rparr>"
  let ?s1 = "s\<lparr>tracked_people := [(k, ?d1)]\<rparr>"
  have 1: "update_tracking s [] = Inr (?s1, [], [])"
    using Suc.prems by (intro idle_call) simp_all
  have 2: "run ?s1 (replicate n []) =
             Inr (?s1\<lparr>tracked_people :=
                    [(k, ?d1\<lparr>frames_since_crossing := frames_since_crossing ?d1 + int n,
                           frames_not_seen := frames_not_seen ?d1 + int n\<rparr>)]\<rparr>,
                replicate n [], [])"
    using Suc.prems by (intro Suc.IH) simp_all
  show ?case by (simp add: 1 2 add.assoc)
qed

section \<open>A person lost and seen again\<close>

lemma seen_once_call: "update_tracking door1 [(100, 100)] =
    Inr (seen_once, [\<lparr>pos = (100, 100), pid = 0, crossing = None\<rparr>], [NewPerson 0])"
  by (simp add: door1_def seen_once_def init_def tick_simps)

lemma seen_once_idle:
  "run seen_once (replicate 149 []) =
     Inr (seen_once\<lparr>tracked_people :=
            [(0, \<lparr>position = (100, 100), last_side = Top,
                   frames_since_crossing = 1148, frames_not_seen = 149\<rparr>)]\<rparr>,
          replicate 149 [], [])"
proof -
  have "frames_not_seen \<lparr>position = (100, 100), last_side = Top,
           frames_since_crossing = 999, frames_not_seen = 0\<rparr> + int 149 < MAX_FRAMES_NOT_SEEN seen_once"
    by (simp add: seen_once_def door1_def init_def)
  from idle_run [OF _ this, of 0] show ?thesis
    by (simp add: seen_once_def)
qed

lemma seen_once_lost:
  "update_tracking (seen_once\<lparr>tracked_people :=
            [(0, \<lparr>position = (100, 100), last_side = Top,
                   frames_since_crossing = 1148, frames_not_seen = 149\<rparr>)]\<rparr>) [] =
     Inr (seen_once\<lparr>tracked_people := []\<rparr>, [], [LostTrack 0])"
  by (simp add: door1_def seen_once_def init_def tick_simps)

lemma replicate_150: "replicate 150 x = replicate 149 x @ [x]"
  by (simp add: replicate_append_same numeral_eq_Suc)

lemma seen_once_150: "run seen_once (replicate 150 []) =
    Inr (seen_once\<lparr>tracked_people := []\<rparr>, replicate 150 [], [LostTrack 0])"
  unfolding replicate_150
  by (simp add: run_append seen_once_idle seen_once_lost)

lemma seen_again_call:
  "update_tracking (seen_once\<lparr>tracked_people := []\<rparr>) [(100, 100)] =
     Inr (seen_once\<lparr>tracked_people := [(1, \<lparr>position = (100, 100), last_side = Top,
                               frames_since_crossing = 999, frames_not_seen = 0\<rparr>)],
            next_id := 2\<rparr>, [\<lparr>pos = (100, 100), pid = 1, crossing = None\<rparr>], [NewPerson 1])"
  by (simp add: door1_def seen_once_def init_def tick_simps)

lemma lost_and_back_run:
  "run door1 lost_and_back =
     Inr (seen_once\<lparr>tracked_people := [(1, \<lparr>position = (100, 100), last_side = Top,
                               frames_since_crossing = 999, frames_not_seen = 0\<rparr>)],
            next_id := 2\<rparr>,
          [\<lparr>pos = (100, 100), pid = 0, crossing = None\<rparr>] # replicate 150 [] @
            [[\<lparr>pos = (100, 100), pid = 1, crossing = None\<rparr>]],
          [NewPerson 0, LostTrack 0, NewPerson 1])"
  unfolding lost_and_back_def
  by (simp add: run_append seen_once_call seen_once_150 seen_again_call)

section \<open>Track ids\<close>

lemma created_only_lost: "\<forall>e\<in>set evs. \<exists>j. e = LostTrack j \<Longrightarrow> created evs = []"
  by (induction evs rule: created.induct) auto

lemma process_people_created:
  assumes "process_people s ids ps = Inr (s', ids', outs, printed)"
  shows "sorted_wrt (<) (created printed) \<and>
         (\<forall>k\<in>set (created printed). next_id s \<le> k \<and> k < next_id s') \<and>
         (\<forall>j. LostTrack j \<notin> set printed)"
  using assms
proof (induction ps arbitrary: s ids outs printed)
  case Nil
  then show ?case by auto
next
  case (Cons p ps)
  from Cons.prems obtain s1 ids1 out pr outs' pr' where
    1: "process_person s ids p = Inr (s1, ids1, out, pr)" and
    2: "process_people s1 ids1 ps = Inr (s', ids', outs', pr')" and
    pr: "printed = pr @ pr'"
    by (rule process_people_Cons_elim)
  from Cons.IH [OF 2] have
    ih1: "sorted_wrt (<) (created pr')" and
    ih2: "\<forall>k\<in>set (created pr'). next_id s1 \<le> k \<and> k < next_id s'" and
    ih3: "\<forall>j. LostTrack j \<notin> set pr'"
    by blast+
  have mono: "next_id s1 \<le> next_id s'" using process_people_invs(2) [OF 2] .
  from 1 show ?case
  proof (cases rule: process_person_elim)
    case (matched k d)
    then have "next_id s1 = next_id s" by simp
    with matched(6,7) ih1 ih2 ih3 pr show ?thesis
      by (auto simp: created_append)
  next
    case new
    then have n: "next_id s1 = next_id s + 1" and c: "created pr = [next_id s]"
      and l: "\<forall>j. LostTrack j \<notin> set pr"
      by simp_all
    have "\<forall>k\<in>set (created pr'). next_id s < k" using ih2 n by auto
    with c ih1 ih2 ih3 l pr n mono show ?thesis
      by (auto simp: created_append)
  qed
qed

lemma update_tracking_created:
  assumes "wf s" and "update_tracking s ds = Inr (s', outs, printed)"
  shows "sorted_wrt (<) (created printed) \<and>
         (\<forall>k\<in>set (created printed). next_id s \<le> k \<and> k < next_id s') \<and>
         (\<forall>l1 k l2. printed = l1 @ LostTrack k # l2 \<longrightarrow> created l2 = [] \<and> k < next_id s')"
proof -
  let ?s0 = "s\<lparr>tracked_people := increment_counters (tracked_people s)\<rparr>"
  from assms(2) obtain s2 ids pr where
    pp: "process_people ?s0 {} ds = Inr (s2, ids, outs, pr)" and
    s': "s' = s2\<lparr>tracked_people := filter (keep_track s2 ids) (tracked_people s2)\<rparr>" and
    pr: "printed = pr @ map (\<lambda>e. LostTrack (fst e))
                      (filter (\<lambda>e. \<not> keep_track s2 ids e) (tracked_people s2))"
    by (rule update_tracking_elim)
  let ?lost = "map (\<lambda>e. LostTrack (fst e)) (filter (\<lambda>e. \<not> keep_track s2 ids e) (tracked_people s2))"
  from process_people_created [OF pp] have
    a1: "sorted_wrt (<) (created pr)" and
    a2: "\<forall>k\<in>set (created pr). next_id s \<le> k \<and> k < next_id s2" and
    a3: "\<forall>j. LostTrack j \<notin> set pr"
    by simp_all
  have wf2: "wf s2"
    using process_people_invs(3) [OF pp] wf_increment_counters [OF assms(1)] by blast
  have n: "next_id s' = next_id s2" using s' by simp
  have lost: "\<forall>e\<in>set ?lost. \<exists>j. e = LostTrack j \<and> j < next_id s2"
    using wf2 by (auto simp: wf_iff)
  have cr: "created printed = created pr"
    using pr by (simp add: created_append created_lost)
  have split: "created l2 = [] \<and> k < next_id s'" if eq: "printed = l1 @ LostTrack k # l2" for l1 k l2
  proof -
    from eq pr have "pr @ ?lost = l1 @ LostTrack k # l2" by simp
    then obtain us where
      "(pr = l1 @ us \<and> us @ ?lost = LostTrack k # l2) \<or> (pr @ us = l1 \<and> ?lost = us @ LostTrack k # l2)"
      by (auto simp: append_eq_append_conv2)
    then have "\<exists>us. ?lost = us @ LostTrack k # l2"
    proof
      assume c: "pr = l1 @ us \<and> us @ ?lost = LostTrack k # l2"
      show ?thesis
      proof (cases us)
        case Nil
        with c have "?lost = [] @ LostTrack k # l2" by simp
        then show ?thesis by blast
      next
        case (Cons u us')
        with c have "LostTrack k \<in> set pr" by auto
        with a3 show ?thesis by blast
      qed
    next
      assume "pr @ us = l1 \<and> ?lost = us @ LostTrack k # l2"
      then show ?thesis by blast
    qed
    then obtain us where l: "?lost = us @ LostTrack k # l2" ..
    have "set l2 \<subseteq> set ?lost" and "LostTrack k \<in> set ?lost"
      by (auto simp: l)
    with lost have "\<forall>e\<in>set l2. \<exists>j. e = LostTrack j" and "k < next_id s2"
      by blast+
    with n show ?thesis by (simp add: created_only_lost)
  qed
  show ?thesis using a1 a2 cr n split by simp
qed

lemma run_created:
  assumes "wf s" and "run s dss = Inr (s', outss, printed)"
  shows "sorted_wrt (<) (created printed) \<and>
         (\<forall>k\<in>set (created printed). next_id s \<le> k \<and> k < next_id s') \<and>
         (\<forall>l1 k l2. printed = l1 @ LostTrack k # l2 \<longrightarrow> (\<forall>k'\<in>set (created l2). k < k'))"
  using assms
proof (induction dss arbitrary: s outss printed)
  case Nil
  then show ?case by auto
next
  case (Cons ds dss)
  from Cons.prems(2) obtain s1 outs pr outss' pr' where
    1: "update_tracking s ds = Inr (s1, outs, pr)" and
    2: "run s1 dss = Inr (s', outss', pr')" and
    pr: "printed = pr @ pr'"
    by (rule run_Cons_elim)
  have wf1: "wf s1" using update_tracking_invs(3) [OF 1 Cons.prems(1)] .
  from update_tracking_created [OF Cons.prems(1) 1] have
    a1: "sorted_wrt (<) (created pr)" and
    a2: "\<forall>k\<in>set (created pr). next_id s \<le> k \<and> k < next_id s1" and
    a3: "\<And>l1 k l2. pr = l1 @ LostTrack k # l2 \<Longrightarrow> created l2 = [] \<and> k < next_id s1"
    by blast+
  from Cons.IH [OF wf1 2] have
    b1: "sorted_wrt (<) (created pr')" and
    b2: "\<forall>k\<in>set (created pr'). next_id s1 \<le> k \<and> k < next_id s'" and
    b3: "\<And>l1 k l2. pr' = l1 @ LostTrack k # l2 \<Longrightarrow> \<forall>k'\<in>set (created l2). k < k'"
    by blast+
  have m0: "next_id s \<le> next_id s1" using update_tracking_invs(2) [OF 1] .
  have m1: "next_id s1 \<le> next_id s'" using run_inv [OF 2] by blast
  have "sorted_wrt (<) (created printed)"
    using a1 a2 b1 b2 pr by (fastforce simp: created_append sorted_wrt_append)
  moreover have "\<forall>k\<in>set (created printed). next_id s \<le> k \<and> k < next_id s'"
    using a2 b2 m0 m1 pr by (fastforce simp: created_append)
  moreover have "\<forall>k'\<in>set (created l2). k < k'" if eq: "printed = l1 @ LostTrack k # l2" for l1 k l2
  proof -
    from eq pr have "pr @ pr' = l1 @ LostTrack k # l2" by simp
    then obtain us where
      "(pr = l1 @ us \<and> us @ pr' = LostTrack k # l2) \<or> (pr @ us = l1 \<and> pr' = us @ LostTrack k # l2)"
      by (auto simp: append_eq_append_conv2)
    then show ?thesis
    proof
      assume c: "pr = l1 @ us \<and> us @ pr' = LostTrack k # l2"
      show ?thesis
      proof (cases us)
        case Nil
        with c have "pr' = [] @ LostTrack k # l2" by simp
        from b3 [OF this] show ?thesis .
      next
        case (Cons u us')
        with c have p: "pr = l1 @ LostTrack k # us'" and l2: "l2 = us' @ pr'" by auto
        from a3 [OF p] have "created us' = []" and "k < next_id s1" by blast+
        with b2 l2 show ?thesis by (fastforce simp: created_append)
      qed
    next
      assume "pr @ us = l1 \<and> pr' = us @ LostTrack k # l2"
      then have "pr' = us @ LostTrack k # l2" ..
      from b3 [OF this] show ?thesis .
    qed
  qed
  ultimately show ?case by blast
qed

section \<open>Expiry of tracks\<close>

lemma same_config_MAX: "same_config s s' \<Longrightarrow> MAX_FRAMES_NOT_SEEN s' = MAX_FRAMES_NOT_SEEN s"
  by (simp add: same_config_def)

lemma process_people_seen:
  assumes "process_people s ids ps = Inr (s', ids', outs, printed)"
  shows "\<forall>k\<in>pid ` set outs. \<exists>d. map_of (tracked_people s') k = Some d \<and> frames_not_seen d = 0"
  using assms
proof (induction ps arbitrary: s ids outs printed)
  case Nil
  then show ?case by auto
next
  case (Cons p ps)
  from Cons.prems obtain s1 ids1 out pr outs' pr' where
    1: "process_person s ids p = Inr (s1, ids1, out, pr)" and
    2: "process_people s1 ids1 ps = Inr (s', ids', outs', pr')" and
    o: "outs = out # outs'"
    by (rule process_people_Cons_elim)
  note ih = Cons.IH [OF 2]
  have first: "\<exists>d. map_of (tracked_people s1) (pid out) = Some d \<and> frames_not_seen d = 0"
    using 1 by (cases rule: process_person_elim)
               (simp_all add: map_of_dict_set matched_track_def new_track_def)
  have "\<exists>d. map_of (tracked_people s') (pid out) = Some d \<and> frames_not_seen d = 0"
  proof (cases "pid out \<in> pid ` set outs'")
    case True
    with ih show ?thesis by blast
  next
    case False
    from process_people_invs(6) [OF 2 False] first show ?thesis by simp
  qed
  with ih o show ?case by auto
qed

lemma map_of_filter_kept:
  "(\<And>v. P (k, v)) \<Longrightarrow> map_of (filter P ps) k = map_of ps k"
  by (induction ps) auto

lemma update_tracking_unseen:
  assumes "wf s" and "update_tracking s ds = Inr (s', outs, printed)" and "k \<notin> pid ` set outs"
  shows "map_of (tracked_people s') k =
           (case map_of (tracked_people s) k of
              None \<Rightarrow> None
            | Some d \<Rightarrow>
                if frames_not_seen d + 1 < MAX_FRAMES_NOT_SEEN s
                then Some (d\<lparr>frames_since_crossing := frames_since_crossing d + 1,
                             frames_not_seen := frames_not_seen d + 1\<rparr>)
                else None)"
proof -
  let ?s0 = "s\<lparr>tracked_people := increment_counters (tracked_people s)\<rparr>"
  from assms(2) obtain s2 ids pr where
    pp: "process_people ?s0 {} ds = Inr (s2, ids, outs, pr)" and
    s': "s' = s2\<lparr>tracked_people := filter (keep_track s2 ids) (tracked_people s2)\<rparr>"
    by (rule update_tracking_elim)
  have wf2: "wf s2"
    using process_people_invs(3) [OF pp] wf_increment_counters [OF assms(1)] by blast
  have ids: "ids = pid ` set outs" using process_people_invs(4) [OF pp] by simp
  have max: "MAX_FRAMES_NOT_SEEN s2 = MAX_FRAMES_NOT_SEEN s"
    using same_config_MAX [OF process_people_invs(1) [OF pp]] by simp
  have m2: "map_of (tracked_people s2) k = map_of (increment_counters (tracked_people s)) k"
    using process_people_invs(6) [OF pp assms(3)] by simp
  have "map_of (tracked_people s') k =
          (case map_of (tracked_people s2) k of
             None \<Rightarrow> None
           | Some v \<Rightarrow> if keep_track s2 ids (k, v) then Some v else None)"
    using wf2 s' by (simp add: wf_iff map_of_filter_distinct)
  then show ?thesis
    using assms(3)
    by (simp add: m2 map_of_increment_counters keep_track_def ids max split: option.splits)
qed

lemma update_tracking_seen:
  assumes "update_tracking s ds = Inr (s', outs, printed)" and "k \<in> pid ` set outs"
  shows "(\<exists>d. map_of (tracked_people s') k = Some d \<and> frames_not_seen d = 0) \<and>
         LostTrack k \<notin> set printed"
proof -
  let ?s0 = "s\<lparr>tracked_people := increment_counters (tracked_people s)\<rparr>"
  from assms(1) obtain s2 ids pr where
    pp: "process_people ?s0 {} ds = Inr (s2, ids, outs, pr)" and
    s': "s' = s2\<lparr>tracked_people := filter (keep_track s2 ids) (tracked_people s2)\<rparr>" and
    pr: "printed = pr @ map (\<lambda>e. LostTrack (fst e))
                      (filter (\<lambda>e. \<not> keep_track s2 ids e) (tracked_people s2))"
    by (rule update_tracking_elim)
  have ids: "k \<in> ids" using process_people_invs(4) [OF pp] assms(2) by simp
  from process_people_seen [OF pp] assms(2) obtain d where
    d: "map_of (tracked_people s2) k = Some d" and z: "frames_not_seen d = 0"
    by blast
  have keep: "\<And>v. keep_track s2 ids (k, v)" using ids by (simp add: keep_track_def)
  have "map_of (filter (keep_track s2 ids) (tracked_people s2)) k = map_of (tracked_people s2) k"
    using keep by (rule map_of_filter_kept)
  with d z s' have A: "\<exists>d. map_of (tracked_people s') k = Some d \<and> frames_not_seen d = 0"
    by simp
  have "LostTrack k \<notin> set pr" using process_people_created [OF pp] by blast
  moreover have "LostTrack k \<notin> set (map (\<lambda>e. LostTrack (fst e))
                      (filter (\<lambda>e. \<not> keep_track s2 ids e) (tracked_people s2)))"
    using keep by auto
  ultimately show ?thesis using A pr by simp
qed


lemma run_unseen:
  assumes "wf s" and "run s dss = Inr (s', outss, printed)"
    and "\<forall>outs\<in>set outss. k \<notin> pid ` set outs"
  shows "map_of (tracked_people s') k =
           (case map_of (tracked_people s) k of
              None \<Rightarrow> None
            | Some d \<Rightarrow>
                if dss = [] \<or> frames_not_seen d + int (length dss) < MAX_FRAMES_NOT_SEEN s
                then Some (d\<lparr>frames_since_crossing := frames_since_crossing d + int (length dss),
                             frames_not_seen := frames_not_seen d + int (length dss)\<rparr>)
                else None)"
  using assms
proof (induction dss arbitrary: s outss printed)
  case Nil
  then show ?case by (simp split: option.splits)
next
  case (Cons ds dss)
  from Cons.prems(2) obtain s1 outs pr outss' pr' where
    1: "update_tracking s ds = Inr (s1, outs, pr)" and
    2: "run s1 dss = Inr (s', outss', pr')" and
    o: "outss = outs # outss'"
    by (rule run_Cons_elim)
  have wf1: "wf s1" using update_tracking_invs(3) [OF 1 Cons.prems(1)] .
  have max: "MAX_FRAMES_NOT_SEEN s1 = MAX_FRAMES_NOT_SEEN s"
    using same_config_MAX [OF update_tracking_invs(1) [OF 1]] .
  have u1: "k \<notin> pid ` set outs" and u2: "\<forall>outs\<in>set outss'. k \<notin> pid ` set outs"
    using Cons.prems(3) o by simp_all
  note first = update_tracking_unseen [OF Cons.prems(1) 1 u1]
  note rest = Cons.IH [OF wf1 2 u2]
  show ?case
  proof (cases "map_of (tracked_people s) k")
    case None
    with first rest show ?thesis by simp
  next
    case (Some d)
    show ?thesis
    proof (cases "frames_not_seen d + 1 < MAX_FRAMES_NOT_SEEN s")
      case True
      with first Some have
        "map_of (tracked_people s1) k =
           Some (d\<lparr>frames_since_crossing := frames_since_crossing d + 1,
                   frames_not_seen := frames_not_seen d + 1\<rparr>)"
        by simp
      with rest Some True max show ?thesis
        by (auto simp: add.assoc)
    next
      case False
      with first Some have "map_of (tracked_people s1) k = None" by simp
      with rest Some False show ?thesis by simp
    qed
  qed
qed

lemma seen_late_call:
  "update_tracking (seen_once\<lparr>tracked_people :=
            [(0, \<lparr>position = (100, 100), last_side = Top,
                   frames_since_crossing = 1148, frames_not_seen = 149\<rparr>)]\<rparr>) [(100, 120)] =
     Inr (seen_once\<lparr>tracked_people :=
            [(0, \<lparr>position = (100, 120), last_side = Top,
                   frames_since_crossing = 1149, frames_not_seen = 0\<rparr>)]\<rparr>,
          [\<lparr>pos = (100, 120), pid = 0, crossing = None\<rparr>], [])"
  by (simp add: door1_def seen_once_def init_def tick_simps)

text \<open>
  Claim C5. Every call first adds 1 to \<^verbatim>\<open>frames_not_seen\<close> of every track, a match sets it
  to 0, and the last loop deletes the tracks not seen on the call whose counter has
  reached \<^verbatim>\<open>MAX_FRAMES_NOT_SEEN\<close>. So a track whose counter is 0 and which no detection
  is bound to for \<open>n\<close> calls in a row is still in the registry, with counter \<open>n\<close>, as
  long as \<open>n\<close> is below \<^verbatim>\<open>MAX_FRAMES_NOT_SEEN\<close>, and is gone once \<open>n\<close> reaches it; and a
  track a detection of the call is bound to is in the registry after the call, with
  counter 0, and is not printed as lost.
\<close>

theorem expiry_after_max_frames_not_seen:
  assumes "wf s"
  shows "(run s dss = Inr (s', outss, printed) \<and>
          map_of (tracked_people s) k = Some d \<and> frames_not_seen d = 0 \<and>
          (\<forall>outs\<in>set outss. k \<notin> pid ` set outs) \<longrightarrow>
            (if int (length dss) < MAX_FRAMES_NOT_SEEN s
             then \<exists>d'. map_of (tracked_people s') k = Some d' \<and>
                       frames_not_seen d' = int (length dss)
             else dss \<noteq> [] \<longrightarrow> map_of (tracked_people s') k = None)) \<and>
         (update_tracking s ds = Inr (t, outs, pr) \<and> k \<in> pid ` set outs \<longrightarrow>
            (\<exists>d'. map_of (tracked_people t) k = Some d' \<and> frames_not_seen d' = 0) \<and>
            LostTrack k \<notin> set pr)"
proof (intro conjI impI)
  assume a: "run s dss = Inr (s', outss, printed) \<and>
          map_of (tracked_people s) k = Some d \<and> frames_not_seen d = 0 \<and>
          (\<forall>outs\<in>set outss. k \<notin> pid ` set outs)"
  then have r: "run s dss = Inr (s', outss, printed)" and
    d: "map_of (tracked_people s) k = Some d" and z: "frames_not_seen d = 0" and
    u: "\<forall>outs\<in>set outss. k \<notin> pid ` set outs"
    by simp_all
  from run_unseen [OF assms r u] d z
  show "if int (length dss) < MAX_FRAMES_NOT_SEEN s
        then \<exists>d'. map_of (tracked_people s') k = Some d' \<and> frames_not_seen d' = int (length dss)
        else dss \<noteq> [] \<longrightarrow> map_of (tracked_people s') k = None"
    by simp
next
  assume "update_tracking s ds = Inr (t, outs, pr) \<and> k \<in> pid ` set outs"
  then have 1: "update_tracking s ds = Inr (t, outs, pr)" and 2: "k \<in> pid ` set outs"
    by simp_all
  from update_tracking_seen [OF 1 2]
  show "\<exists>d'. map_of (tracked_people t) k = Some d' \<and> frames_not_seen d' = 0"
    and "LostTrack k \<notin> set pr"
    by simp_all
qed

theorem expiry_after_max_frames_not_seen_witness:
  "wf seen_once \<and> MAX_FRAMES_NOT_SEEN seen_once = 150 \<and>
   run seen_once (replicate 149 []) =
     Inr (seen_once\<lparr>tracked_people :=
            [(0, \<lparr>position = (100, 100), last_side = Top,
                   frames_since_crossing = 1148, frames_not_seen = 149\<rparr>)]\<rparr>,
          replicate 149 [], []) \<and>
   run seen_once (replicate 150 []) =
     Inr (seen_once\<lparr>tracked_people := []\<rparr>, replicate 150 [], [LostTrack 0]) \<and>
   map_of (tracked_people (seen_once\<lparr>tracked_people := []\<rparr>)) 0 = None \<and>
   (\<exists>t pr. update_tracking (seen_once\<lparr>tracked_people :=
            [(0, \<lparr>position = (100, 100), last_side = Top,
                   frames_since_crossing = 1148, frames_not_seen = 149\<rparr>)]\<rparr>) [(100, 120)] =
        Inr (t, [\<lparr>pos = (100, 120), pid = 0, crossing = None\<rparr>], pr) \<and>
      map fst (tracked_people t) = [0] \<and> LostTrack 0 \<notin> set pr)"
proof -
  have h: "wf seen_once"
    by (simp add: wf_def seen_once_def door1_def init_def)
  have h': "wf (seen_once\<lparr>tracked_people :=
            [(0, \<lparr>position = (100, 100), last_side = Top,
                   frames_since_crossing = 1148, frames_not_seen = 149\<rparr>)]\<rparr>)"
    by (simp add: wf_def seen_once_def door1_def init_def)
  have m: "MAX_FRAMES_NOT_SEEN seen_once = 150"
    by (simp add: seen_once_def door1_def init_def)
  have d: "map_of (tracked_people seen_once) 0 =
             Some \<lparr>position = (100, 100), last_side = Top,
                    frames_since_crossing = 999, frames_not_seen = 0\<rparr>"
    by (simp add: seen_once_def)
  from expiry_after_max_frames_not_seen [OF h, where dss = "replicate 150 []" and k = 0
      and s' = "seen_once\<lparr>tracked_people := []\<rparr>" and outss = "replicate 150 []"
      and printed = "[LostTrack 0]"] seen_once_150 d m
  have gone: "map_of (tracked_people (seen_once\<lparr>tracked_people := []\<rparr>)) 0 = None"
    by simp
  from expiry_after_max_frames_not_seen [OF h', where k = 0 and ds = "[(100, 120)]"] seen_late_call
  have "LostTrack 0 \<notin> set []" by simp
  with h m gone seen_once_idle seen_once_150 seen_late_call show ?thesis
    by simp
qed

section \<open>The first crossing of a track\<close>

lemma armed_iff:
  "armed s k sd \<longleftrightarrow>
     (\<exists>d. map_of (tracked_people s) k = Some d \<and> 999 \<le> frames_since_crossing d \<and> last_side d = sd)"
  by (simp add: armed_def split: option.splits)

lemma first_change_counted_same_config:
  "same_config s s' \<Longrightarrow> first_change_counted s' sd outs = first_change_counted s sd outs"
  by (induction outs) (simp_all add: same_config_get_side)

lemma first_change_counted_append:
  "first_change_counted s sd (xs @ ys) \<longleftrightarrow>
     first_change_counted s sd xs \<and>
     ((\<forall>out\<in>set xs. get_side s (snd (pos out)) = sd) \<longrightarrow> first_change_counted s sd ys)"
  by (induction xs) auto

lemma map_of_None_iff_key: "map_of ps k = None \<longleftrightarrow> k \<notin> fst ` set ps"
  by (simp add: map_of_eq_None_iff)

lemma process_person_armed:
  assumes "wf s" and "DEBOUNCE_FRAMES s \<le> 999" and "armed s k sd"
    and "process_person s ids p = Inr (s', ids', out, printed)"
  shows "if pid out = k
         then (if get_side s (snd (pos out)) = sd
               then crossing out = None \<and> armed s' k sd
               else crossing out = Some (if sd = Top then Entry else Exit))
         else armed s' k sd"
  using assms(4)
proof (cases rule: process_person_elim)
  case (matched k' d)
  show ?thesis
  proof (cases "k' = k")
    case True
    with assms(3) matched(2) have d: "999 \<le> frames_since_crossing d" "last_side d = sd"
      by (simp_all add: armed_iff)
    with assms(2) have c: "counted s d p \<longleftrightarrow> get_side s (snd p) \<noteq> sd"
      by (auto simp: counted_def)
    from matched True d c show ?thesis
      by (simp add: armed_iff map_of_dict_set matched_track_def)
  next
    case False
    with assms(3) matched show ?thesis
      by (simp add: armed_iff map_of_dict_set)
  qed
next
  case new
  from assms(3) have "k \<in> fst ` set (tracked_people s)"
    by (auto simp: armed_iff dom_map_of_conv_image_fst [symmetric])
  with wf_fresh [OF assms(1)] have "k \<noteq> next_id s" by blast
  with assms(3) new show ?thesis
    by (simp add: armed_iff map_of_dict_set)
qed

lemma process_people_armed:
  assumes "wf s" and "DEBOUNCE_FRAMES s \<le> 999" and "armed s k sd"
    and "process_people s ids ps = Inr (s', ids', outs, printed)"
  shows "first_change_counted s sd (filter (\<lambda>out. pid out = k) outs) \<and>
         ((\<forall>out\<in>set (filter (\<lambda>out. pid out = k) outs). get_side s (snd (pos out)) = sd) \<longrightarrow>
            armed s' k sd)"
  using assms
proof (induction ps arbitrary: s ids outs printed)
  case Nil
  then show ?case by auto
next
  case (Cons p ps)
  from Cons.prems(4) obtain s1 ids1 out pr outs' pr' where
    1: "process_person s ids p = Inr (s1, ids1, out, pr)" and
    2: "process_people s1 ids1 ps = Inr (s', ids', outs', pr')" and
    o: "outs = out # outs'"
    by (rule process_people_Cons_elim)
  have wf1: "wf s1" using process_person_inv(3) [OF 1 Cons.prems(1)] .
  have cfg: "same_config s s1" using process_person_inv(1) [OF 1] .
  have deb1: "DEBOUNCE_FRAMES s1 \<le> 999"
    using same_config_DEBOUNCE [OF cfg] Cons.prems(2) by simp
  note step = process_person_armed [OF Cons.prems(1,2,3) 1]
  have ih: "first_change_counted s sd (filter (\<lambda>out. pid out = k) outs') \<and>
         ((\<forall>out\<in>set (filter (\<lambda>out. pid out = k) outs'). get_side s (snd (pos out)) = sd) \<longrightarrow>
            armed s' k sd)" if "armed s1 k sd"
    using Cons.IH [OF wf1 deb1 that 2]
    by (simp add: first_change_counted_same_config [OF cfg] same_config_get_side [OF cfg])
  show ?case
  proof (cases "pid out = k")
    case False
    with step have "armed s1 k sd" by simp
    from ih [OF this] False o show ?thesis by simp
  next
    case True
    show ?thesis
    proof (cases "get_side s (snd (pos out)) = sd")
      case same: True
      with step True have "crossing out = None" and "armed s1 k sd" by simp_all
      from ih [OF this(2)] this(1) True same o show ?thesis by simp
    next
      case other: False
      with step True have "crossing out = Some (if sd = Top then Entry else Exit)" by simp
      with True other o show ?thesis by auto
    qed
  qed
qed


lemma process_person_gone:
  assumes "gone s k" and "process_person s ids p = Inr (s', ids', out, printed)"
  shows "pid out \<noteq> k \<and> gone s' k"
  using assms(2)
proof (cases rule: process_person_elim)
  case (matched k' d)
  with assms(1) show ?thesis
    by (auto simp: gone_def map_of_dict_set)
next
  case new
  with assms(1) show ?thesis
    by (auto simp: gone_def map_of_dict_set)
qed

lemma process_people_gone:
  assumes "gone s k" and "process_people s ids ps = Inr (s', ids', outs, printed)"
  shows "filter (\<lambda>out. pid out = k) outs = [] \<and> gone s' k"
  using assms
proof (induction ps arbitrary: s ids outs printed)
  case Nil
  then show ?case by auto
next
  case (Cons p ps)
  from Cons.prems(2) obtain s1 ids1 out pr outs' pr' where
    1: "process_person s ids p = Inr (s1, ids1, out, pr)" and
    2: "process_people s1 ids1 ps = Inr (s', ids', outs', pr')" and
    o: "outs = out # outs'"
    by (rule process_people_Cons_elim)
  from process_person_gone [OF Cons.prems(1) 1] have a: "pid out \<noteq> k" and b: "gone s1 k"
    by simp_all
  from Cons.IH [OF b 2] a o show ?case by simp
qed

lemma map_of_filter_None: "map_of ps k = None \<Longrightarrow> map_of (filter P ps) k = None"
  by (auto simp: map_of_eq_None_iff)

lemma update_tracking_gone:
  assumes "gone s k" and "update_tracking s ds = Inr (s', outs, printed)"
  shows "filter (\<lambda>out. pid out = k) outs = [] \<and> gone s' k"
proof -
  let ?s0 = "s\<lparr>tracked_people := increment_counters (tracked_people s)\<rparr>"
  from assms(2) obtain s2 ids pr where
    pp: "process_people ?s0 {} ds = Inr (s2, ids, outs, pr)" and
    s': "s' = s2\<lparr>tracked_people := filter (keep_track s2 ids) (tracked_people s2)\<rparr>"
    by (rule update_tracking_elim)
  have "gone ?s0 k"
    using assms(1) by (simp add: gone_def map_of_increment_counters)
  from process_people_gone [OF this pp] have
    a: "filter (\<lambda>out. pid out = k) outs = []" and b: "gone s2 k"
    by simp_all
  from b s' have "gone s' k"
    by (simp add: gone_def map_of_filter_None)
  with a show ?thesis by simp
qed

lemma run_gone:
  assumes "gone s k" and "run s dss = Inr (s', outss, printed)"
  shows "filter (\<lambda>out. pid out = k) (concat outss) = []"
  using assms
proof (induction dss arbitrary: s outss printed)
  case Nil
  then show ?case by simp
next
  case (Cons ds dss)
  from Cons.prems(2) obtain s1 outs pr outss' pr' where
    1: "update_tracking s ds = Inr (s1, outs, pr)" and
    2: "run s1 dss = Inr (s', outss', pr')" and
    o: "outss = outs # outss'"
    by (rule run_Cons_elim)
  from update_tracking_gone [OF Cons.prems(1) 1] have
    a: "filter (\<lambda>out. pid out = k) outs = []" and b: "gone s1 k"
    by simp_all
  from Cons.IH [OF b 2] a o show ?case by simp
qed

lemma update_tracking_armed:
  assumes "wf s" and "DEBOUNCE_FRAMES s \<le> 999" and "armed s k sd"
    and "update_tracking s ds = Inr (s', outs, printed)"
  shows "first_change_counted s sd (filter (\<lambda>out. pid out = k) outs) \<and>
         ((\<forall>out\<in>set (filter (\<lambda>out. pid out = k) outs). get_side s (snd (pos out)) = sd) \<longrightarrow>
            armed s' k sd \<or> gone s' k)"
proof -
  let ?s0 = "s\<lparr>tracked_people := increment_counters (tracked_people s)\<rparr>"
  from assms(4) obtain s2 ids pr where
    pp: "process_people ?s0 {} ds = Inr (s2, ids, outs, pr)" and
    s': "s' = s2\<lparr>tracked_people := filter (keep_track s2 ids) (tracked_people s2)\<rparr>"
    by (rule update_tracking_elim)
  have wf0: "wf ?s0" using assms(1) by (rule wf_increment_counters)
  have wf2: "wf s2" using process_people_invs(3) [OF pp wf0] .
  have cfg: "same_config s ?s0" by (simp add: same_config_def)
  have deb0: "DEBOUNCE_FRAMES ?s0 \<le> 999" using assms(2) by simp
  have a0: "armed ?s0 k sd"
    using assms(3) by (auto simp: armed_iff map_of_increment_counters)
  from process_people_armed [OF wf0 deb0 a0 pp] have
    f: "first_change_counted s sd (filter (\<lambda>out. pid out = k) outs)" and
    a2: "(\<forall>out\<in>set (filter (\<lambda>out. pid out = k) outs). get_side s (snd (pos out)) = sd) \<Longrightarrow>
            armed s2 k sd"
    by (simp_all add: first_change_counted_same_config [OF cfg] same_config_get_side [OF cfg])
  have "armed s' k sd \<or> gone s' k" if "armed s2 k sd"
  proof -
    from that obtain d where d: "map_of (tracked_people s2) k = Some d"
      and dd: "999 \<le> frames_since_crossing d" "last_side d = sd"
      by (auto simp: armed_iff)
    from d have "k \<in> fst ` set (tracked_people s2)"
      by (metis domI dom_map_of_conv_image_fst)
    with wf2 have lt: "k < next_id s2" by (auto simp: wf_iff)
    from wf2 s' d have "map_of (tracked_people s') k =
        (if keep_track s2 ids (k, d) then Some d else None)"
      by (simp add: wf_iff map_of_filter_distinct)
    with dd lt s' show ?thesis
      by (auto simp: armed_iff gone_def)
  qed
  with f a2 show ?thesis by blast
qed

lemma run_armed:
  assumes "wf s" and "DEBOUNCE_FRAMES s \<le> 999" and "armed s k sd \<or> gone s k"
    and "run s dss = Inr (s', outss, printed)"
  shows "first_change_counted s sd (filter (\<lambda>out. pid out = k) (concat outss))"
  using assms
proof (induction dss arbitrary: s outss printed)
  case Nil
  then show ?case by simp
next
  case (Cons ds dss)
  show ?case
  proof (cases "gone s k")
    case True
    from run_gone [OF True Cons.prems(4)] show ?thesis by simp
  next
    case False
    with Cons.prems(3) have arm: "armed s k sd" by simp
    from Cons.prems(4) obtain s1 outs pr outss' pr' where
      1: "update_tracking s ds = Inr (s1, outs, pr)" and
      2: "run s1 dss = Inr (s', outss', pr')" and
      o: "outss = outs # outss'"
      by (rule run_Cons_elim)
    have wf1: "wf s1" using update_tracking_invs(3) [OF 1 Cons.prems(1)] .
    have cfg: "same_config s s1" using update_tracking_invs(1) [OF 1] .
    have deb1: "DEBOUNCE_FRAMES s1 \<le> 999"
      using same_config_DEBOUNCE [OF cfg] Cons.prems(2) by simp
    from update_tracking_armed [OF Cons.prems(1,2) arm 1] have
      f: "first_change_counted s sd (filter (\<lambda>out. pid out = k) outs)" and
      a: "(\<forall>out\<in>set (filter (\<lambda>out. pid out = k) outs). get_side s (snd (pos out)) = sd) \<Longrightarrow>
            armed s1 k sd \<or> gone s1 k"
      by simp_all
    have "first_change_counted s sd (filter (\<lambda>out. pid out = k) (concat outss'))"
      if "\<forall>out\<in>set (filter (\<lambda>out. pid out = k) outs). get_side s (snd (pos out)) = sd"
      using Cons.IH [OF wf1 deb1 a [OF that] 2]
      by (simp add: first_change_counted_same_config [OF cfg])
    with f o show ?thesis
      by (simp add: first_change_counted_append)
  qed
qed


lemma process_people_unborn:
  assumes "wf s" and "DEBOUNCE_FRAMES s \<le> 999" and "next_id s \<le> k"
    and "process_people s ids ps = Inr (s', ids', outs, printed)"
  shows "case filter (\<lambda>out. pid out = k) outs of
           [] \<Rightarrow> next_id s' \<le> k
         | a # rest \<Rightarrow>
             crossing a = None \<and>
             first_change_counted s (get_side s (snd (pos a))) rest \<and>
             ((\<forall>out\<in>set rest. get_side s (snd (pos out)) = get_side s (snd (pos a))) \<longrightarrow>
                armed s' k (get_side s (snd (pos a))))"
  using assms
proof (induction ps arbitrary: s ids outs printed)
  case Nil
  then show ?case by auto
next
  case (Cons p ps)
  from Cons.prems(4) obtain s1 ids1 out pr outs' pr' where
    1: "process_person s ids p = Inr (s1, ids1, out, pr)" and
    2: "process_people s1 ids1 ps = Inr (s', ids', outs', pr')" and
    o: "outs = out # outs'"
    by (rule process_people_Cons_elim)
  have wf1: "wf s1" using process_person_inv(3) [OF 1 Cons.prems(1)] .
  have cfg: "same_config s s1" using process_person_inv(1) [OF 1] .
  have deb1: "DEBOUNCE_FRAMES s1 \<le> 999"
    using same_config_DEBOUNCE [OF cfg] Cons.prems(2) by simp
  have later: ?case if ne: "pid out \<noteq> k" and n1: "next_id s1 \<le> k"
  proof -
    from ne o have "filter (\<lambda>out. pid out = k) outs = filter (\<lambda>out. pid out = k) outs'"
      by simp
    with Cons.IH [OF wf1 deb1 n1 2] show ?thesis
      by (simp add: first_change_counted_same_config [OF cfg] same_config_get_side [OF cfg]
               split: list.splits)
  qed
  from 1 show ?case
  proof (cases rule: process_person_elim)
    case (matched k' d)
    then have "k' \<in> fst ` set (tracked_people s)"
      by (metis domI dom_map_of_conv_image_fst)
    with Cons.prems(1,3) have "k' \<noteq> k" by (auto simp: wf_iff)
    with matched Cons.prems(3) show ?thesis
      by (intro later) simp_all
  next
    case new
    show ?thesis
    proof (cases "next_id s = k")
      case False
      with new Cons.prems(3) show ?thesis
        by (intro later) simp_all
    next
      case True
      let ?sd = "get_side s (snd p)"
      from new True have a1: "armed s1 k ?sd"
        by (simp add: armed_iff map_of_dict_set new_track_def)
      from process_people_armed [OF wf1 deb1 a1 2] have
        "first_change_counted s ?sd (filter (\<lambda>out. pid out = k) outs') \<and>
         ((\<forall>out\<in>set (filter (\<lambda>out. pid out = k) outs'). get_side s (snd (pos out)) = ?sd) \<longrightarrow>
            armed s' k ?sd)"
        by (simp add: first_change_counted_same_config [OF cfg] same_config_get_side [OF cfg])
      with new True o show ?thesis by simp
    qed
  qed
qed

lemma update_tracking_unborn:
  assumes "wf s" and "DEBOUNCE_FRAMES s \<le> 999" and "next_id s \<le> k"
    and "update_tracking s ds = Inr (s', outs, printed)"
  shows "case filter (\<lambda>out. pid out = k) outs of
           [] \<Rightarrow> next_id s' \<le> k
         | a # rest \<Rightarrow>
             crossing a = None \<and>
             first_change_counted s (get_side s (snd (pos a))) rest \<and>
             ((\<forall>out\<in>set rest. get_side s (snd (pos out)) = get_side s (snd (pos a))) \<longrightarrow>
                armed s' k (get_side s (snd (pos a))) \<or> gone s' k)"
proof -
  let ?s0 = "s\<lparr>tracked_people := increment_counters (tracked_people s)\<rparr>"
  from assms(4) obtain s2 ids pr where
    pp: "process_people ?s0 {} ds = Inr (s2, ids, outs, pr)" and
    s': "s' = s2\<lparr>tracked_people := filter (keep_track s2 ids) (tracked_people s2)\<rparr>"
    by (rule update_tracking_elim)
  have wf0: "wf ?s0" using assms(1) by (rule wf_increment_counters)
  have wf2: "wf s2" using process_people_invs(3) [OF pp wf0] .
  have cfg: "same_config s ?s0" by (simp add: same_config_def)
  have deb0: "DEBOUNCE_FRAMES ?s0 \<le> 999" using assms(2) by simp
  have n0: "next_id ?s0 \<le> k" using assms(3) by simp
  have keep: "armed s' k sd \<or> gone s' k" if "armed s2 k sd" for sd
  proof -
    from that obtain d where d: "map_of (tracked_people s2) k = Some d"
      and dd: "999 \<le> frames_since_crossing d" "last_side d = sd"
      by (auto simp: armed_iff)
    from d have "k \<in> fst ` set (tracked_people s2)"
      by (metis domI dom_map_of_conv_image_fst)
    with wf2 have lt: "k < next_id s2" by (auto simp: wf_iff)
    from wf2 s' d have "map_of (tracked_people s') k =
        (if keep_track s2 ids (k, d) then Some d else None)"
      by (simp add: wf_iff map_of_filter_distinct)
    with dd lt s' show ?thesis
      by (auto simp: armed_iff gone_def)
  qed
  have n: "next_id s' = next_id s2" using s' by simp
  note loop = process_people_unborn [OF wf0 deb0 n0 pp]
  show ?thesis
  proof (cases "filter (\<lambda>out. pid out = k) outs")
    case Nil
    with loop n show ?thesis by simp
  next
    case (Cons a rest)
    let ?sd = "get_side s (snd (pos a))"
    from loop Cons have c: "crossing a = None" and f: "first_change_counted s ?sd rest"
      and st: "(\<forall>out\<in>set rest. get_side s (snd (pos out)) = ?sd) \<Longrightarrow> armed s2 k ?sd"
      by (simp_all add: first_change_counted_same_config [OF cfg] same_config_get_side [OF cfg])
    have "armed s' k ?sd \<or> gone s' k"
      if "\<forall>out\<in>set rest. get_side s (snd (pos out)) = ?sd"
      using keep [OF st [OF that]] .
    with c f Cons show ?thesis by simp
  qed
qed

lemma run_unborn:
  assumes "wf s" and "DEBOUNCE_FRAMES s \<le> 999" and "next_id s \<le> k"
    and "run s dss = Inr (s', outss, printed)"
  shows "case filter (\<lambda>out. pid out = k) (concat outss) of
           [] \<Rightarrow> True
         | a # rest \<Rightarrow>
             crossing a = None \<and> first_change_counted s (get_side s (snd (pos a))) rest"
  using assms
proof (induction dss arbitrary: s outss printed)
  case Nil
  then show ?case by simp
next
  case (Cons ds dss)
  from Cons.prems(4) obtain s1 outs pr outss' pr' where
    1: "update_tracking s ds = Inr (s1, outs, pr)" and
    2: "run s1 dss = Inr (s', outss', pr')" and
    o: "outss = outs # outss'"
    by (rule run_Cons_elim)
  have wf1: "wf s1" using update_tracking_invs(3) [OF 1 Cons.prems(1)] .
  have cfg: "same_config s s1" using update_tracking_invs(1) [OF 1] .
  have deb1: "DEBOUNCE_FRAMES s1 \<le> 999"
    using same_config_DEBOUNCE [OF cfg] Cons.prems(2) by simp
  let ?ks1 = "filter (\<lambda>out. pid out = k) outs"
  let ?ks2 = "filter (\<lambda>out. pid out = k) (concat outss')"
  have ks: "filter (\<lambda>out. pid out = k) (concat outss) = ?ks1 @ ?ks2"
    using o by simp
  note tick = update_tracking_unborn [OF Cons.prems(1,2,3) 1]
  show ?case
  proof (cases ?ks1)
    case Nil
    with tick have "next_id s1 \<le> k" by simp
    from Cons.IH [OF wf1 deb1 this 2] Nil ks show ?thesis
      by (simp add: first_change_counted_same_config [OF cfg] same_config_get_side [OF cfg]
               split: list.splits)
  next
    case (Cons a rest)
    let ?sd = "get_side s (snd (pos a))"
    from tick Cons have c: "crossing a = None" and f: "first_change_counted s ?sd rest"
      and st: "(\<forall>out\<in>set rest. get_side s (snd (pos out)) = ?sd) \<Longrightarrow> armed s1 k ?sd \<or> gone s1 k"
      by simp_all
    have "first_change_counted s ?sd ?ks2" if "\<forall>out\<in>set rest. get_side s (snd (pos out)) = ?sd"
      using run_armed [OF wf1 deb1 st [OF that] 2]
      by (simp add: first_change_counted_same_config [OF cfg])
    with c f Cons ks show ?thesis
      by (simp add: first_change_counted_append)
  qed
qed

lemma walk_through_run:
  "run door1 [[(100, 200)], [(100, 230)], [(100, 250)]] =
     Inr (door1\<lparr>entries := 1,
            tracked_people := [(0, \<lparr>position = (100, 250), last_side = Bottom,
                                     frames_since_crossing = 0, frames_not_seen = 0\<rparr>)],
            next_id := 1\<rparr>,
          [[\<lparr>pos = (100, 200), pid = 0, crossing = None\<rparr>],
           [\<lparr>pos = (100, 230), pid = 0, crossing = None\<rparr>],
           [\<lparr>pos = (100, 250), pid = 0, crossing = Some Entry\<rparr>]],
          [NewPerson 0, EntryDetected 0 1])"
  by (simp add: door1_def init_def tick_simps)

text \<open>
  Claim C4. A new track starts with \<^verbatim>\<open>frames_since_crossing = 999\<close>, every call adds 1,
  and only a counted crossing lowers it; since \<^verbatim>\<open>DEBOUNCE_FRAMES\<close> is 15, at most 999, the
  debounce test holds until the track's first crossing. So for a track \<open>k\<close> created during
  a sequence of calls, take the detections bound to \<open>k\<close> in order: if \<open>b\<close> is the first one
  on the other side than its predecessor \<open>a\<close> (all earlier ones are on the side of \<open>a\<close>),
  then no crossing was counted for \<open>k\<close> before and the crossing at \<open>b\<close> is counted: an entry
  from top to bottom, an exit from bottom to top.
\<close>

theorem first_crossing_is_counted:
  assumes "wf s" and "DEBOUNCE_FRAMES s \<le> 999" and "next_id s \<le> k"
    and "run s dss = Inr (s', outss, printed)"
    and "filter (\<lambda>out. pid out = k) (concat outss) = pre @ [a, b] @ post"
    and "\<forall>out\<in>set pre. get_side s (snd (pos out)) = get_side s (snd (pos a))"
    and "get_side s (snd (pos b)) \<noteq> get_side s (snd (pos a))"
  shows "(\<forall>out\<in>set (pre @ [a]). crossing out = None) \<and>
         crossing b = Some (if get_side s (snd (pos a)) = Top then Entry else Exit)"
proof -
  let ?sd = "get_side s (snd (pos a))"
  have split: "(\<forall>out\<in>set xs. crossing out = None) \<and>
               crossing b = Some (if ?sd = Top then Entry else Exit)"
    if "first_change_counted s ?sd (xs @ b # post)"
      and "\<forall>out\<in>set xs. get_side s (snd (pos out)) = ?sd" for xs
    using that assms(7) by (induction xs) auto
  note born = run_unborn [OF assms(1-4)]
  show ?thesis
  proof (cases pre)
    case Nil
    with born assms(5) have "crossing a = None" and "first_change_counted s ?sd ([] @ b # post)"
      by simp_all
    with split [of "[]"] Nil show ?thesis by simp
  next
    case (Cons c pre')
    with assms(6) have sc: "get_side s (snd (pos c)) = ?sd" by simp
    from born assms(5) Cons sc have cn: "crossing c = None"
      and f: "first_change_counted s ?sd ((pre' @ [a]) @ b # post)"
      by simp_all
    have "\<forall>out\<in>set (pre' @ [a]). get_side s (snd (pos out)) = ?sd"
      using assms(6) Cons by simp
    from split [OF f this] have
      "\<forall>out\<in>set (pre' @ [a]). crossing out = None" and
      "crossing b = Some (if ?sd = Top then Entry else Exit)"
      by blast+
    with cn show ?thesis unfolding Cons by simp
  qed
qed


theorem first_crossing_is_counted_witness:
  "wf door1 \<and> DEBOUNCE_FRAMES door1 \<le> 999 \<and> next_id door1 \<le> 0 \<and>
   (\<exists>s' printed.
      run door1 [[(100, 200)], [(100, 230)], [(100, 250)]] =
        Inr (s', [[\<lparr>pos = (100, 200), pid = 0, crossing = None\<rparr>],
                  [\<lparr>pos = (100, 230), pid = 0, crossing = None\<rparr>],
                  [\<lparr>pos = (100, 250), pid = 0, crossing = Some Entry\<rparr>]], printed) \<and>
      entries s' = 1) \<and>
   get_side door1 (snd (pos \<lparr>pos = (100, 250), pid = 0, crossing = Some Entry\<rparr>)) \<noteq>
     get_side door1 (snd (pos \<lparr>pos = (100, 230), pid = 0, crossing = None\<rparr>))"
proof -
  have h1: "wf door1" unfolding door1_def by (rule wf_init)
  have h2: "DEBOUNCE_FRAMES door1 \<le> 999" by (simp add: door1_def init_def)
  have h3: "next_id door1 \<le> 0" by (simp add: door1_def init_def)
  have h5: "filter (\<lambda>out. pid out = 0)
              (concat [[\<lparr>pos = (100, 200), pid = 0, crossing = None\<rparr>],
                       [\<lparr>pos = (100, 230), pid = 0, crossing = None\<rparr>],
                       [\<lparr>pos = (100, 250), pid = 0, crossing = Some Entry\<rparr>]]) =
            [\<lparr>pos = (100, 200), pid = 0, crossing = None\<rparr>] @
            [\<lparr>pos = (100, 230), pid = 0, crossing = None\<rparr>,
             \<lparr>pos = (100, 250), pid = 0, crossing = Some Entry\<rparr>] @ []"
    by simp
  have h6: "\<forall>out\<in>set [\<lparr>pos = (100, 200), pid = 0, crossing = None\<rparr>].
              get_side door1 (snd (pos out)) =
              get_side door1 (snd (pos \<lparr>pos = (100, 230), pid = 0, crossing = None\<rparr>))"
    by (simp add: get_side_def door1_def init_def)
  have h7: "get_side door1 (snd (pos \<lparr>pos = (100, 250), pid = 0, crossing = Some Entry\<rparr>)) \<noteq>
            get_side door1 (snd (pos \<lparr>pos = (100, 230), pid = 0, crossing = None\<rparr>))"
    by (simp add: get_side_def door1_def init_def)
  from first_crossing_is_counted [OF h1 h2 h3 walk_through_run h5 h6 h7]
  have "crossing \<lparr>pos = (100, 250), pid = 0, crossing = Some Entry\<rparr> = Some Entry"
    by simp
  with h1 h2 h3 h7 walk_through_run show ?thesis by simp
qed

section \<open>Track ids in the registry and on the detections\<close>

lemma gone_iff: "gone s k \<longleftrightarrow> k < next_id s \<and> k \<notin> fst ` set (tracked_people s)"
  by (simp add: gone_def map_of_eq_None_iff)

lemma process_person_new_id:
  assumes "wf s" and "process_person s ids p = Inr (s', ids', out, printed)"
  shows "created printed = (if pid out \<in> fst ` set (tracked_people s) then [] else [pid out])"
    and "pid out \<notin> fst ` set (tracked_people s) \<Longrightarrow> pid out = next_id s"
    and "pid out < next_id s'"
proof -
  have "created printed = (if pid out \<in> fst ` set (tracked_people s) then [] else [pid out]) \<and>
        (pid out \<notin> fst ` set (tracked_people s) \<longrightarrow> pid out = next_id s) \<and>
        pid out < next_id s'"
    using assms(2)
  proof (cases rule: process_person_elim)
    case (matched k d)
    then have key: "k \<in> fst ` set (tracked_people s)"
      by (metis domI dom_map_of_conv_image_fst)
    with assms(1) have "k < next_id s" by (auto simp: wf_iff)
    with matched key show ?thesis by simp
  next
    case new
    with wf_fresh [OF assms(1)] show ?thesis by simp
  qed
  then show "created printed = (if pid out \<in> fst ` set (tracked_people s) then [] else [pid out])"
    and "pid out \<notin> fst ` set (tracked_people s) \<Longrightarrow> pid out = next_id s"
    and "pid out < next_id s'"
    by blast+
qed

lemma process_people_new_ids:
  assumes "wf s" and "process_people s ids ps = Inr (s', ids', outs, printed)"
  shows "set (created printed) = pid ` set outs - fst ` set (tracked_people s) \<and>
         (\<forall>out\<in>set outs. pid out < next_id s') \<and>
         (\<forall>xs out ys. outs = xs @ out # ys \<and> pid out \<notin> pid ` set xs \<and>
                       pid out \<notin> fst ` set (tracked_people s) \<longrightarrow>
            next_id s \<le> pid out \<and> (\<forall>x\<in>set xs. pid x < pid out))"
  using assms
proof (induction ps arbitrary: s ids outs printed)
  case Nil
  then show ?case by auto
next
  case (Cons p ps)
  from Cons.prems(2) obtain s1 ids1 out1 pr outs' pr' where
    1: "process_person s ids p = Inr (s1, ids1, out1, pr)" and
    2: "process_people s1 ids1 ps = Inr (s', ids', outs', pr')" and
    o: "outs = out1 # outs'" and pr: "printed = pr @ pr'"
    by (rule process_people_Cons_elim)
  have wf1: "wf s1" using process_person_inv(3) [OF 1 Cons.prems(1)] .
  have keys1: "fst ` set (tracked_people s1) = insert (pid out1) (fst ` set (tracked_people s))"
    using process_person_inv(5) [OF 1] .
  have n01: "next_id s \<le> next_id s1" using process_person_inv(2) [OF 1] .
  have n1: "next_id s1 \<le> next_id s'" using process_people_invs(2) [OF 2] .
  note step = process_person_new_id [OF Cons.prems(1) 1]
  from Cons.IH [OF wf1 2] have
    ih1: "set (created pr') = pid ` set outs' - fst ` set (tracked_people s1)" and
    ih2: "\<forall>out\<in>set outs'. pid out < next_id s'" and
    ih3: "\<And>xs out ys. outs' = xs @ out # ys \<Longrightarrow> pid out \<notin> pid ` set xs \<Longrightarrow>
            pid out \<notin> fst ` set (tracked_people s1) \<Longrightarrow>
            next_id s1 \<le> pid out \<and> (\<forall>x\<in>set xs. pid x < pid out)"
    by blast+
  have A: "set (created printed) = pid ` set outs - fst ` set (tracked_people s)"
  proof -
    define K where "K = fst ` set (tracked_people s)"
    define P where "P = pid ` set outs'"
    have c: "set (created printed) = set (created pr) \<union> set (created pr')"
      using pr by (simp add: created_append)
    have c1: "set (created pr) = (if pid out1 \<in> K then {} else {pid out1})"
      using step(1) by (simp add: K_def)
    have c2: "set (created pr') = P - insert (pid out1) K"
      using ih1 keys1 by (simp add: K_def P_def)
    have "pid ` set outs = insert (pid out1) P"
      using o by (simp add: P_def)
    with c c1 c2 have "set (created printed) = pid ` set outs - K"
      by (cases "pid out1 \<in> K") auto
    then show ?thesis by (simp add: K_def)
  qed
  have B: "\<forall>out\<in>set outs. pid out < next_id s'"
    using step(3) n1 ih2 o by auto
  have C: "next_id s \<le> pid out \<and> (\<forall>x\<in>set xs. pid x < pid out)"
    if eq: "outs = xs @ out # ys" and first: "pid out \<notin> pid ` set xs"
      and fresh: "pid out \<notin> fst ` set (tracked_people s)" for xs out ys
  proof (cases xs)
    case Nil
    with eq o have "out = out1" by simp
    with step(2) fresh Nil show ?thesis by simp
  next
    case (Cons x xs')
    with eq o have x: "x = out1" and eq': "outs' = xs' @ out # ys" by simp_all
    from first Cons have f': "pid out \<notin> pid ` set xs'" and ne: "pid out \<noteq> pid out1"
      using x by auto
    from fresh ne keys1 have "pid out \<notin> fst ` set (tracked_people s1)" by simp
    from ih3 [OF eq' f' this] have a: "next_id s1 \<le> pid out" and b: "\<forall>x\<in>set xs'. pid x < pid out"
      by simp_all
    from step(3) a have "pid out1 < pid out" by simp
    with a b n01 Cons x show ?thesis by simp
  qed
  from A B C show ?case by blast
qed

lemma update_tracking_new_ids:
  assumes "wf s" and "update_tracking s ds = Inr (s', outs, printed)"
  shows "set (created printed) = pid ` set outs - fst ` set (tracked_people s) \<and>
         (\<forall>out\<in>set outs. pid out < next_id s') \<and>
         fst ` set (tracked_people s') \<subseteq> fst ` set (tracked_people s) \<union> pid ` set outs \<and>
         (\<forall>xs out ys. outs = xs @ out # ys \<and> pid out \<notin> pid ` set xs \<and>
                       pid out \<notin> fst ` set (tracked_people s) \<longrightarrow>
            next_id s \<le> pid out \<and> (\<forall>x\<in>set xs. pid x < pid out))"
proof -
  let ?s0 = "s\<lparr>tracked_people := increment_counters (tracked_people s)\<rparr>"
  from assms(2) obtain s2 ids pr where
    pp: "process_people ?s0 {} ds = Inr (s2, ids, outs, pr)" and
    s': "s' = s2\<lparr>tracked_people := filter (keep_track s2 ids) (tracked_people s2)\<rparr>" and
    pr: "printed = pr @ map (\<lambda>e. LostTrack (fst e))
                      (filter (\<lambda>e. \<not> keep_track s2 ids e) (tracked_people s2))"
    by (rule update_tracking_elim)
  have wf0: "wf ?s0" using assms(1) by (rule wf_increment_counters)
  have keys0: "fst ` set (increment_counters (tracked_people s)) = fst ` set (tracked_people s)"
    using keys_increment_counters [of "tracked_people s"] by (simp flip: set_map)
  have keys2: "fst ` set (tracked_people s2) = fst ` set (tracked_people s) \<union> pid ` set outs"
    using process_people_invs(5) [OF pp] keys0 by simp
  have t0: "tracked_people ?s0 = increment_counters (tracked_people s)" by simp
  note raw = process_people_new_ids [OF wf0 pp, unfolded t0 keys0]
  from raw have
    a: "set (created pr) = pid ` set outs - fst ` set (tracked_people s)" and
    b: "\<forall>out\<in>set outs. pid out < next_id s2"
    by blast+
  from raw have
    c: "\<forall>xs out ys. outs = xs @ out # ys \<and> pid out \<notin> pid ` set xs \<and>
                       pid out \<notin> fst ` set (tracked_people s) \<longrightarrow>
            next_id ?s0 \<le> pid out \<and> (\<forall>x\<in>set xs. pid x < pid out)"
    by blast
  have "created printed = created pr"
    using pr by (simp add: created_append created_lost)
  moreover have "next_id s' = next_id s2" using s' by simp
  moreover have "fst ` set (tracked_people s') \<subseteq> fst ` set (tracked_people s2)"
    using s' by auto
  ultimately show ?thesis using a b c keys2 by simp
qed


lemma run_gone_stays:
  assumes "gone s k" and "run s dss = Inr (s', outss, printed)"
  shows "gone s' k \<and> k \<notin> pid ` set (concat outss)"
  using assms
proof (induction dss arbitrary: s outss printed)
  case Nil
  then show ?case by simp
next
  case (Cons ds dss)
  from Cons.prems(2) obtain s1 outs pr outss' pr' where
    1: "update_tracking s ds = Inr (s1, outs, pr)" and
    2: "run s1 dss = Inr (s', outss', pr')" and
    o: "outss = outs # outss'"
    by (rule run_Cons_elim)
  from update_tracking_gone [OF Cons.prems(1) 1] have
    a: "filter (\<lambda>out. pid out = k) outs = []" and b: "gone s1 k"
    by simp_all
  from a have "k \<notin> pid ` set outs" by (auto simp: filter_empty_conv)
  with Cons.IH [OF b 2] o show ?case by auto
qed

lemma update_tracking_lost_gone:
  assumes "wf s" and "update_tracking s ds = Inr (s', outs, printed)"
    and "LostTrack k \<in> set printed"
  shows "gone s' k"
proof -
  let ?s0 = "s\<lparr>tracked_people := increment_counters (tracked_people s)\<rparr>"
  from assms(2) obtain s2 ids pr where
    pp: "process_people ?s0 {} ds = Inr (s2, ids, outs, pr)" and
    s': "s' = s2\<lparr>tracked_people := filter (keep_track s2 ids) (tracked_people s2)\<rparr>" and
    pr: "printed = pr @ map (\<lambda>e. LostTrack (fst e))
                      (filter (\<lambda>e. \<not> keep_track s2 ids e) (tracked_people s2))"
    by (rule update_tracking_elim)
  have wf2: "wf s2"
    using process_people_invs(3) [OF pp] wf_increment_counters [OF assms(1)] by blast
  have "LostTrack k \<notin> set pr" using process_people_created [OF pp] by blast
  with assms(3) pr obtain d where
    mem: "(k, d) \<in> set (tracked_people s2)" and drop: "\<not> keep_track s2 ids (k, d)"
    by auto
  have look: "map_of (tracked_people s2) k = Some d"
    using wf_map_of [OF wf2 mem] .
  from mem wf2 have lt: "k < next_id s2" by (auto simp: wf_iff)
  from wf2 s' look drop have "map_of (tracked_people s') k = None"
    by (simp add: wf_iff map_of_filter_distinct)
  with lt s' show ?thesis by (simp add: gone_def)
qed

lemma run_lost_gone:
  assumes "wf s" and "run s dss = Inr (s', outss, printed)" and "LostTrack k \<in> set printed"
  shows "gone s' k"
  using assms
proof (induction dss arbitrary: s outss printed)
  case Nil
  then show ?case by simp
next
  case (Cons ds dss)
  from Cons.prems(2) obtain s1 outs pr outss' pr' where
    1: "update_tracking s ds = Inr (s1, outs, pr)" and
    2: "run s1 dss = Inr (s', outss', pr')" and
    pr: "printed = pr @ pr'"
    by (rule run_Cons_elim)
  have wf1: "wf s1" using update_tracking_invs(3) [OF 1 Cons.prems(1)] .
  show ?case
  proof (cases "LostTrack k \<in> set pr")
    case True
    from update_tracking_lost_gone [OF Cons.prems(1) 1 True] have "gone s1 k" .
    from run_gone_stays [OF this 2] show ?thesis by simp
  next
    case False
    with Cons.prems(3) pr have "LostTrack k \<in> set pr'" by simp
    from Cons.IH [OF wf1 2 this] show ?thesis .
  qed
qed

lemma run_new_ids:
  assumes "wf s" and "run s dss = Inr (s', outss, printed)"
  shows "set (created printed) = pid ` set (concat outss) - fst ` set (tracked_people s) \<and>
         (\<forall>out\<in>set (concat outss). pid out < next_id s') \<and>
         fst ` set (tracked_people s') \<subseteq>
           fst ` set (tracked_people s) \<union> pid ` set (concat outss) \<and>
         (\<forall>xs out ys. concat outss = xs @ out # ys \<and> pid out \<notin> pid ` set xs \<and>
                       pid out \<notin> fst ` set (tracked_people s) \<longrightarrow>
            next_id s \<le> pid out \<and> (\<forall>x\<in>set xs. pid x < pid out))"
  using assms
proof (induction dss arbitrary: s outss printed)
  case Nil
  then show ?case by auto
next
  case (Cons ds dss)
  from Cons.prems(2) obtain s1 outs pr outss' pr' where
    1: "update_tracking s ds = Inr (s1, outs, pr)" and
    2: "run s1 dss = Inr (s', outss', pr')" and
    o: "outss = outs # outss'" and pr: "printed = pr @ pr'"
    by (rule run_Cons_elim)
  have wf1: "wf s1" using update_tracking_invs(3) [OF 1 Cons.prems(1)] .
  have n01: "next_id s \<le> next_id s1" using update_tracking_invs(2) [OF 1] .
  have n1: "next_id s1 \<le> next_id s'" using run_inv [OF 2] by blast
  define K where "K = fst ` set (tracked_people s)"
  define K1 where "K1 = fst ` set (tracked_people s1)"
  define P1 where "P1 = pid ` set outs"
  define P2 where "P2 = pid ` set (concat outss')"
  note t = update_tracking_new_ids [OF Cons.prems(1) 1, folded K_def K1_def P1_def]
  note t1 = t [THEN conjunct1] and t2 = t [THEN conjunct2, THEN conjunct1]
    and t3 = t [THEN conjunct2, THEN conjunct2, THEN conjunct1]
  have t4: "next_id s \<le> pid out \<and> (\<forall>x\<in>set xs. pid x < pid out)"
    if "outs = xs @ out # ys" and "pid out \<notin> pid ` set xs" and "pid out \<notin> K" for xs out ys
    using t [THEN conjunct2, THEN conjunct2, THEN conjunct2] that by blast
  note r = Cons.IH [OF wf1 2, folded K1_def P2_def]
  note r1 = r [THEN conjunct1] and r2 = r [THEN conjunct2, THEN conjunct1]
    and r3 = r [THEN conjunct2, THEN conjunct2, THEN conjunct1]
  have r4: "next_id s1 \<le> pid out \<and> (\<forall>x\<in>set xs. pid x < pid out)"
    if "concat outss' = xs @ out # ys" and "pid out \<notin> pid ` set xs" and "pid out \<notin> K1"
    for xs out ys
    using r [THEN conjunct2, THEN conjunct2, THEN conjunct2] that by blast
  have old: "x \<notin> P2" if "x \<in> K" and "x \<notin> K1" for x
  proof -
    from that(1) Cons.prems(1) have "x < next_id s" by (auto simp: wf_iff K_def)
    with n01 that(2) have "gone s1 x" by (simp add: gone_iff K1_def)
    from run_gone_stays [OF this 2] show ?thesis by (simp add: P2_def)
  qed
  have pids: "pid ` set (concat outss) = P1 \<union> P2"
    using o by (auto simp: P1_def P2_def)
  have "set (created printed) = (P1 - K) \<union> (P2 - K1)"
    using pr t1 r1 by (simp add: created_append)
  also have "\<dots> = (P1 \<union> P2) - K"
    using t3 old by blast
  finally have A: "set (created printed) = pid ` set (concat outss) - K"
    using pids by simp
  have B: "\<forall>out\<in>set (concat outss). pid out < next_id s'"
    using t2 r2 n1 o by auto
  have C: "fst ` set (tracked_people s') \<subseteq> K \<union> pid ` set (concat outss)"
    using r3 t3 pids by blast
  have D: "next_id s \<le> pid out \<and> (\<forall>x\<in>set xs. pid x < pid out)"
    if eq: "concat outss = xs @ out # ys" and first: "pid out \<notin> pid ` set xs"
      and fresh: "pid out \<notin> K" for xs out ys
  proof -
    from eq o have "outs @ concat outss' = xs @ out # ys" by simp
    then obtain us where
      "(outs = xs @ us \<and> us @ concat outss' = out # ys) \<or>
       (outs @ us = xs \<and> concat outss' = us @ out # ys)"
      by (auto simp: append_eq_append_conv2)
    then consider
      (tick) us' where "outs = xs @ out # us'"
      | (later) us where "xs = outs @ us" and "concat outss' = us @ out # ys"
    proof
      assume c: "outs = xs @ us \<and> us @ concat outss' = out # ys"
      show thesis
      proof (cases us)
        case Nil
        with c have "xs = outs @ []" and "concat outss' = [] @ out # ys" by simp_all
        then show thesis by (rule later)
      next
        case (Cons u us')
        with c have "outs = xs @ out # us'" by simp
        then show thesis by (rule tick)
      qed
    next
      assume "outs @ us = xs \<and> concat outss' = us @ out # ys"
      then have "xs = outs @ us" and "concat outss' = us @ out # ys" by simp_all
      then show thesis by (rule later)
    qed
    then show ?thesis
    proof cases
      case tick
      from t4 [OF tick first fresh] show ?thesis .
    next
      case later
      from first later(1) have f1: "pid out \<notin> P1" and f2: "pid out \<notin> pid ` set us"
        by (auto simp: P1_def)
      from fresh f1 t3 have "pid out \<notin> K1" by blast
      from r4 [OF later(2) f2 this] have a: "next_id s1 \<le> pid out"
        and b: "\<forall>x\<in>set us. pid x < pid out"
        by simp_all
      from t2 a have "\<forall>x\<in>set outs. pid x < pid out" by fastforce
      with a b n01 later(1) show ?thesis by auto
    qed
  qed
  have D': "\<forall>xs out ys. concat outss = xs @ out # ys \<and> pid out \<notin> pid ` set xs \<and>
                       pid out \<notin> K \<longrightarrow>
            next_id s \<le> pid out \<and> (\<forall>x\<in>set xs. pid x < pid out)"
  proof (intro allI impI)
    fix xs out ys
    assume "concat outss = xs @ out # ys \<and> pid out \<notin> pid ` set xs \<and> pid out \<notin> K"
    then have "concat outss = xs @ out # ys" and "pid out \<notin> pid ` set xs" and "pid out \<notin> K"
      by simp_all
    then show "next_id s \<le> pid out \<and> (\<forall>x\<in>set xs. pid x < pid out)" by (rule D)
  qed
  show ?case
    by (intro conjI) (rule A [unfolded K_def] B C [unfolded K_def] D' [unfolded K_def])+
qed


text \<open>
  Claim C7. Over any sequence of calls of \<^verbatim>\<open>update_tracking\<close> from a well-formed state:
  the ids printed for new tracks are strictly increasing in the order of creation, each
  greater than every id in the registry at the start, and they are exactly the ids on the
  annotated detections that the registry did not hold at the start. A detection that
  carries an id for the first time, one the registry did not hold at the start, carries
  an id greater than every id on an earlier detection and every id of the registry at the
  start. The keys of the registry stay distinct and below \<^verbatim>\<open>next_id\<close>, and so is every id
  on a detection. An id below \<^verbatim>\<open>next_id\<close> that the registry does not hold is never a key of
  the registry or the id of a detection again; in particular, once a track is printed as
  lost its id is absent from the registry at the end and from every detection of the
  calls that follow, wherever they lie, and every id created later is greater.
\<close>

theorem track_ids_increase_and_are_not_reused:
  assumes "wf s" and "run s dss = Inr (s', outss, printed)"
  shows "sorted_wrt (<) (created printed) \<and>
         (\<forall>k\<in>set (created printed).
            (\<forall>e\<in>set (tracked_people s). fst e < k) \<and> next_id s \<le> k \<and> k < next_id s') \<and>
         (\<forall>l1 k l2. printed = l1 @ LostTrack k # l2 \<longrightarrow> (\<forall>k'\<in>set (created l2). k < k')) \<and>
         distinct (map fst (tracked_people s')) \<and>
         (\<forall>e\<in>set (tracked_people s'). fst e < next_id s') \<and>
         set (created printed) = pid ` set (concat outss) - fst ` set (tracked_people s) \<and>
         (\<forall>out\<in>set (concat outss). pid out < next_id s') \<and>
         fst ` set (tracked_people s') \<subseteq>
           fst ` set (tracked_people s) \<union> pid ` set (concat outss) \<and>
         (\<forall>xs out ys. concat outss = xs @ out # ys \<and> pid out \<notin> pid ` set xs \<and>
                       pid out \<notin> fst ` set (tracked_people s) \<longrightarrow>
            next_id s \<le> pid out \<and> (\<forall>x\<in>set xs. pid x < pid out) \<and>
            (\<forall>e\<in>set (tracked_people s). fst e < pid out)) \<and>
         (\<forall>k. k < next_id s \<and> k \<notin> fst ` set (tracked_people s) \<longrightarrow>
            k \<notin> fst ` set (tracked_people s') \<and> k \<notin> pid ` set (concat outss)) \<and>
         (\<forall>k. LostTrack k \<in> set printed \<longrightarrow>
            k \<notin> fst ` set (tracked_people s') \<and> k < next_id s') \<and>
         (\<forall>dss1 dss2 s1 outss1 pr1 outss2 pr2 k.
            dss = dss1 @ dss2 \<and> run s dss1 = Inr (s1, outss1, pr1) \<and>
            run s1 dss2 = Inr (s', outss2, pr2) \<and> LostTrack k \<in> set pr1 \<longrightarrow>
            k \<notin> pid ` set (concat outss2) \<and> k \<notin> fst ` set (tracked_people s'))"
proof -
  note c = run_created [OF assms]
  note c1 = c [THEN conjunct1]
  have c2: "\<forall>k\<in>set (created printed). next_id s \<le> k \<and> k < next_id s'"
    using c [THEN conjunct2, THEN conjunct1] .
  note c3 = c [THEN conjunct2, THEN conjunct2]
  have below: "\<forall>e\<in>set (tracked_people s). fst e < next_id s"
    using assms(1) by (auto simp: wf_iff)
  have C2: "\<forall>k\<in>set (created printed).
            (\<forall>e\<in>set (tracked_people s). fst e < k) \<and> next_id s \<le> k \<and> k < next_id s'"
    using c2 below by fastforce
  have "wf s'" using run_inv [OF assms(2)] assms(1) by blast
  then have d: "distinct (map fst (tracked_people s'))" and
    e: "\<forall>e\<in>set (tracked_people s'). fst e < next_id s'"
    by (auto simp: wf_iff)
  note n = run_new_ids [OF assms]
  note n1 = n [THEN conjunct1] and n2 = n [THEN conjunct2, THEN conjunct1]
    and n3 = n [THEN conjunct2, THEN conjunct2, THEN conjunct1]
  note n4 = n [THEN conjunct2, THEN conjunct2, THEN conjunct2]
  have N4: "\<forall>xs out ys. concat outss = xs @ out # ys \<and> pid out \<notin> pid ` set xs \<and>
                       pid out \<notin> fst ` set (tracked_people s) \<longrightarrow>
            next_id s \<le> pid out \<and> (\<forall>x\<in>set xs. pid x < pid out) \<and>
            (\<forall>e\<in>set (tracked_people s). fst e < pid out)"
  proof (intro allI impI)
    fix xs out ys
    assume a: "concat outss = xs @ out # ys \<and> pid out \<notin> pid ` set xs \<and>
               pid out \<notin> fst ` set (tracked_people s)"
    with n4 have b: "next_id s \<le> pid out \<and> (\<forall>x\<in>set xs. pid x < pid out)" by blast
    with below have "\<forall>e\<in>set (tracked_people s). fst e < pid out" by fastforce
    with b show "next_id s \<le> pid out \<and> (\<forall>x\<in>set xs. pid x < pid out) \<and>
                 (\<forall>e\<in>set (tracked_people s). fst e < pid out)"
      by simp
  qed
  have G: "\<forall>k. k < next_id s \<and> k \<notin> fst ` set (tracked_people s) \<longrightarrow>
            k \<notin> fst ` set (tracked_people s') \<and> k \<notin> pid ` set (concat outss)"
  proof (intro allI impI)
    fix k
    assume "k < next_id s \<and> k \<notin> fst ` set (tracked_people s)"
    then have "gone s k" by (simp add: gone_iff)
    from run_gone_stays [OF this assms(2)]
    show "k \<notin> fst ` set (tracked_people s') \<and> k \<notin> pid ` set (concat outss)"
      by (simp add: gone_iff)
  qed
  have L: "\<forall>k. LostTrack k \<in> set printed \<longrightarrow>
            k \<notin> fst ` set (tracked_people s') \<and> k < next_id s'"
  proof (intro allI impI)
    fix k
    assume "LostTrack k \<in> set printed"
    from run_lost_gone [OF assms this]
    show "k \<notin> fst ` set (tracked_people s') \<and> k < next_id s'"
      by (simp add: gone_iff)
  qed
  have S: "\<forall>dss1 dss2 s1 outss1 pr1 outss2 pr2 k.
            dss = dss1 @ dss2 \<and> run s dss1 = Inr (s1, outss1, pr1) \<and>
            run s1 dss2 = Inr (s', outss2, pr2) \<and> LostTrack k \<in> set pr1 \<longrightarrow>
            k \<notin> pid ` set (concat outss2) \<and> k \<notin> fst ` set (tracked_people s')"
  proof (intro allI impI)
    fix dss1 dss2 s1 outss1 pr1 outss2 pr2 k
    assume a: "dss = dss1 @ dss2 \<and> run s dss1 = Inr (s1, outss1, pr1) \<and>
            run s1 dss2 = Inr (s', outss2, pr2) \<and> LostTrack k \<in> set pr1"
    then have r1: "run s dss1 = Inr (s1, outss1, pr1)" and r2: "run s1 dss2 = Inr (s', outss2, pr2)"
      and l: "LostTrack k \<in> set pr1"
      by simp_all
    from run_lost_gone [OF assms(1) r1 l] have "gone s1 k" .
    from run_gone_stays [OF this r2]
    show "k \<notin> pid ` set (concat outss2) \<and> k \<notin> fst ` set (tracked_people s')"
      by (simp add: gone_iff)
  qed
  show ?thesis
    by (intro conjI) (rule c1 C2 c3 d e n1 n2 n3 N4 G L S)+
qed

theorem track_ids_increase_and_are_not_reused_witness:
  "wf door1 \<and>
   run door1 lost_and_back =
     Inr (seen_once\<lparr>tracked_people := [(1, \<lparr>position = (100, 100), last_side = Top,
                               frames_since_crossing = 999, frames_not_seen = 0\<rparr>)],
            next_id := 2\<rparr>,
          [\<lparr>pos = (100, 100), pid = 0, crossing = None\<rparr>] # replicate 150 [] @
            [[\<lparr>pos = (100, 100), pid = 1, crossing = None\<rparr>]],
          [NewPerson 0, LostTrack 0, NewPerson 1]) \<and>
   created [NewPerson 0, LostTrack 0, NewPerson 1] = [0, 1] \<and>
   0 \<notin> fst ` set (tracked_people
      (seen_once\<lparr>tracked_people := [(1, \<lparr>position = (100, 100), last_side = Top,
                               frames_since_crossing = 999, frames_not_seen = 0\<rparr>)],
            next_id := 2\<rparr>)) \<and>
   run door1 ([(100, 100)] # replicate 150 []) =
     Inr (seen_once\<lparr>tracked_people := []\<rparr>,
          [\<lparr>pos = (100, 100), pid = 0, crossing = None\<rparr>] # replicate 150 [],
          [NewPerson 0, LostTrack 0]) \<and>
   run (seen_once\<lparr>tracked_people := []\<rparr>) [[(100, 100)]] =
     Inr (seen_once\<lparr>tracked_people := [(1, \<lparr>position = (100, 100), last_side = Top,
                               frames_since_crossing = 999, frames_not_seen = 0\<rparr>)],
            next_id := 2\<rparr>,
          [[\<lparr>pos = (100, 100), pid = 1, crossing = None\<rparr>]], [NewPerson 1]) \<and>
   0 \<notin> pid ` set (concat [[\<lparr>pos = (100, 100), pid = 1, crossing = None\<rparr>]])"
proof -
  have h1: "wf door1" unfolding door1_def by (rule wf_init)
  note h2 = lost_and_back_run
  have r1: "run door1 ([(100, 100)] # replicate 150 []) =
     Inr (seen_once\<lparr>tracked_people := []\<rparr>,
          [\<lparr>pos = (100, 100), pid = 0, crossing = None\<rparr>] # replicate 150 [],
          [NewPerson 0, LostTrack 0])"
    by (simp add: seen_once_call seen_once_150)
  have r2: "run (seen_once\<lparr>tracked_people := []\<rparr>) [[(100, 100)]] =
     Inr (seen_once\<lparr>tracked_people := [(1, \<lparr>position = (100, 100), last_side = Top,
                               frames_since_crossing = 999, frames_not_seen = 0\<rparr>)],
            next_id := 2\<rparr>,
          [[\<lparr>pos = (100, 100), pid = 1, crossing = None\<rparr>]], [NewPerson 1])"
    by (simp add: seen_again_call)
  have sp: "lost_and_back = ([(100, 100)] # replicate 150 []) @ [[(100, 100)]]"
    by (simp add: lost_and_back_def)
  note T = track_ids_increase_and_are_not_reused [OF h1 h2]
  from T have L: "\<forall>k. LostTrack k \<in> set [NewPerson 0, LostTrack 0, NewPerson 1] \<longrightarrow>
      k \<notin> fst ` set (tracked_people
        (seen_once\<lparr>tracked_people := [(1, \<lparr>position = (100, 100), last_side = Top,
                               frames_since_crossing = 999, frames_not_seen = 0\<rparr>)],
            next_id := 2\<rparr>)) \<and>
      k < next_id (seen_once\<lparr>tracked_people := [(1, \<lparr>position = (100, 100), last_side = Top,
                               frames_since_crossing = 999, frames_not_seen = 0\<rparr>)],
            next_id := 2\<rparr>)"
    by (elim conjE)
  from T have S: "\<forall>dss1 dss2 s1 outss1 pr1 outss2 pr2 k.
            lost_and_back = dss1 @ dss2 \<and> run door1 dss1 = Inr (s1, outss1, pr1) \<and>
            run s1 dss2 =
              Inr (seen_once\<lparr>tracked_people := [(1, \<lparr>position = (100, 100), last_side = Top,
                               frames_since_crossing = 999, frames_not_seen = 0\<rparr>)],
                     next_id := 2\<rparr>, outss2, pr2) \<and> LostTrack k \<in> set pr1 \<longrightarrow>
            k \<notin> pid ` set (concat outss2) \<and>
            k \<notin> fst ` set (tracked_people
              (seen_once\<lparr>tracked_people := [(1, \<lparr>position = (100, 100), last_side = Top,
                               frames_since_crossing = 999, frames_not_seen = 0\<rparr>)],
                     next_id := 2\<rparr>))"
    by (elim conjE)
  from L have a: "0 \<notin> fst ` set (tracked_people
      (seen_once\<lparr>tracked_people := [(1, \<lparr>position = (100, 100), last_side = Top,
                               frames_since_crossing = 999, frames_not_seen = 0\<rparr>)],
            next_id := 2\<rparr>))"
    by simp
  from S sp r1 r2 have b: "0 \<notin> pid ` set (concat [[\<lparr>pos = (100, 100), pid = 1, crossing = None\<rparr>]])"
    by simp
  from h1 h2 r1 r2 a b show ?thesis by simp
qed

section \<open>A track created earlier in the same call\<close>















section \<open>Occupancy\<close>

lemma sum_list_diff: "sum_list (map (\<lambda>c. f c - g c) cs) = sum_list (map f cs) - sum_list (map g (cs::'a list))"
  for f g :: "'a \<Rightarrow> int"
  by (induction cs) auto

lemma process_frame_shown:
  assumes "process_frame s center = Inr (s', outs, shown)"
  shows "shown = entries s' - exits s' \<and>
         entries s' = entries s + int (count_crossings Entry outs) \<and>
         exits s' = exits s + int (count_crossings Exit outs)"
proof (cases "frame_count (s\<lparr>frame_count := frame_count s + 1\<rparr>) mod
              PROCESS_EVERY_N_FRAMES (s\<lparr>frame_count := frame_count s + 1\<rparr>) = 0 \<and> center \<noteq> None")
  case True
  then obtain c where c: "center = Some c" by auto
  let ?s1 = "s\<lparr>frame_count := frame_count s + 1\<rparr>"
  from assms True c obtain pr where
    ut: "update_tracking ?s1 [c] = Inr (s', outs, pr)" and sh: "shown = entries s' - exits s'"
    by (auto simp: process_frame_def Let_def split: if_splits sum.splits)
  from update_tracking_invs(4,5) [OF ut] sh show ?thesis by simp
next
  case False
  with assms show ?thesis
    by (auto simp: process_frame_def Let_def count_crossings_def split: if_splits option.splits)
qed

text \<open>
  Claim C3. The occupancy a door reports is \<^verbatim>\<open>entries - exits\<close>, computed when the frame is
  drawn and stored nowhere: after any frame it is the difference of the two counters,
  each of which has grown by the crossings of that kind counted on the frame, and it is
  negative when exits exceed entries. The totals of the dashboard are the sums of the
  doors' entries and exits, and the total occupancy is their difference, which is also
  the sum of the doors' occupancies that the main loop prints.
\<close>

theorem occupancy_is_entries_minus_exits:
  "total_people s = entries s - exits s \<and>
   (process_frame s center = Inr (s', outs, shown) \<longrightarrow>
      shown = total_people s' \<and>
      entries s' = entries s + int (count_crossings Entry outs) \<and>
      exits s' = exits s + int (count_crossings Exit outs)) \<and>
   total_in counters = sum_list (map entries counters) \<and>
   total_out counters = sum_list (map exits counters) \<and>
   occupancy counters = total_in counters - total_out counters \<and>
   occupancy counters = sum_list (map total_people counters) \<and>
   run_total counters = occupancy counters"
proof -
  have "sum_list (map total_people counters) = total_in counters - total_out counters"
    unfolding total_in_def total_out_def total_people_def by (rule sum_list_diff)
  moreover have "run_total counters = total_in counters - total_out counters"
    unfolding total_in_def total_out_def run_total_def by (rule sum_list_diff)
  ultimately show ?thesis
    using process_frame_shown [of s center s' outs shown]
    by (auto simp: total_people_def occupancy_def total_in_def total_out_def)
qed


theorem occupancy_is_entries_minus_exits_witness:
  "process_frame below_track (Some (100, 230)) =
     Inr (below_track\<lparr>exits := 1, frame_count := 2,
            tracked_people := [(0, \<lparr>position = (100, 230), last_side = Top,
                                      frames_since_crossing = 0, frames_not_seen = 0\<rparr>)]\<rparr>,
          [\<lparr>pos = (100, 230), pid = 0, crossing = Some Exit\<rparr>], - 1) \<and>
   total_people (below_track\<lparr>exits := 1, frame_count := 2,
            tracked_people := [(0, \<lparr>position = (100, 230), last_side = Top,
                                      frames_since_crossing = 0, frames_not_seen = 0\<rparr>)]\<rparr>) = - 1 \<and>
   occupancy [below_track\<lparr>exits := 1\<rparr>, one_track\<lparr>entries := 3, exits := 4\<rparr>] = - 2"
proof -
  have h: "process_frame below_track (Some (100, 230)) =
     Inr (below_track\<lparr>exits := 1, frame_count := 2,
            tracked_people := [(0, \<lparr>position = (100, 230), last_side = Top,
                                      frames_since_crossing = 0, frames_not_seen = 0\<rparr>)]\<rparr>,
          [\<lparr>pos = (100, 230), pid = 0, crossing = Some Exit\<rparr>], - 1)"
    by (simp add: process_frame_def below_track_def init_def tick_simps)
  show ?thesis
    using h occupancy_is_entries_minus_exits
      [where s = below_track and center = "Some (100, 230)" and shown = "- 1"
         and s' = "below_track\<lparr>exits := 1, frame_count := 2,
            tracked_people := [(0, \<lparr>position = (100, 230), last_side = Top,
                                      frames_since_crossing = 0, frames_not_seen = 0\<rparr>)]\<rparr>"
         and outs = "[\<lparr>pos = (100, 230), pid = 0, crossing = Some Exit\<rparr>]"
         and counters = "[below_track\<lparr>exits := 1\<rparr>, one_track\<lparr>entries := 3, exits := 4\<rparr>]"]
    by (simp add: total_people_def below_track_def one_track_def init_def occupancy_def
        total_in_def total_out_def)
qed


section \<open>Configuration fields that are not read\<close>

lemma closest_id_reconfigure: "closest_id (reconfigure dir m s) p = closest_id s p"
  by (simp add: closest_id_def reconfigure_def)

lemma get_side_reconfigure: "get_side (reconfigure dir m s) y = get_side s y"
  by (simp add: get_side_def reconfigure_def)

lemma process_person_reconfigure:
  "process_person (reconfigure dir m s) ids p =
     map_sum id (\<lambda>(s', ids', out, printed). (reconfigure dir m s', ids', out, printed))
       (process_person s ids p)"
  unfolding process_person_def closest_id_reconfigure get_side_reconfigure
  by (simp add: reconfigure_def Let_def split: option.splits prod.splits)

lemma process_people_reconfigure:
  "process_people (reconfigure dir m s) ids ps =
     map_sum id (\<lambda>(s', ids', outs, printed). (reconfigure dir m s', ids', outs, printed))
       (process_people s ids ps)"
proof (induction ps arbitrary: s ids)
  case Nil
  show ?case by simp
next
  case (Cons p ps)
  show ?case
    by (cases "process_person s ids p")
       (auto simp: process_person_reconfigure Cons.IH split: sum.splits)
qed

lemma update_tracking_reconfigure:
  "update_tracking (reconfigure dir m s) ds =
     map_sum id (\<lambda>(s', outs, printed). (reconfigure dir m s', outs, printed))
       (update_tracking s ds)"
proof -
  have age: "(reconfigure dir m s)\<lparr>tracked_people :=
                increment_counters (tracked_people (reconfigure dir m s))\<rparr> =
             reconfigure dir m (s\<lparr>tracked_people := increment_counters (tracked_people s)\<rparr>)"
    by (simp add: reconfigure_def)
  have keep: "keep_track (reconfigure dir m t) ids = keep_track t ids" for t ids
    by (rule ext) (simp add: keep_track_def reconfigure_def)
  have lost: "remove_lost (reconfigure dir m t) ids =
                (reconfigure dir m (fst (remove_lost t ids)), snd (remove_lost t ids))" for t ids
    unfolding remove_lost_def keep by (simp add: reconfigure_def)
  show ?thesis
    unfolding update_tracking_def age process_people_reconfigure
    by (cases "process_people (s\<lparr>tracked_people := increment_counters (tracked_people s)\<rparr>) {} ds")
       (auto simp: lost)
qed

lemma run_reconfigure:
  "run (reconfigure dir m s) dss =
     map_sum id (\<lambda>(s', outss, printed). (reconfigure dir m s', outss, printed)) (run s dss)"
proof (induction dss arbitrary: s)
  case Nil
  show ?case by simp
next
  case (Cons ds dss)
  show ?case
    by (cases "update_tracking s ds")
       (auto simp: update_tracking_reconfigure Cons.IH split: sum.splits)
qed

text \<open>
  Claim C9. The result of a call of \<^verbatim>\<open>update_tracking\<close>, and of any sequence of calls, does
  not depend on \<^verbatim>\<open>direction\<close> or \<^verbatim>\<open>MIN_DISTANCE_FROM_LINE\<close>: from two states that differ
  only in these two fields the same detections give the same error or the same registry,
  counters, annotated detections and printed lines, the two fields staying as they were.
  The side of a position compares its y coordinate with the line whatever the direction.
\<close>

theorem unused_configuration_fields:
  "get_side (reconfigure dir m s) y = get_side s y \<and>
   update_tracking (reconfigure dir m s) ds =
     map_sum id (\<lambda>(s', outs, printed). (reconfigure dir m s', outs, printed))
       (update_tracking s ds) \<and>
   run (reconfigure dir m s) dss =
     map_sum id (\<lambda>(s', outss, printed). (reconfigure dir m s', outss, printed)) (run s dss) \<and>
   tracked_people (reconfigure dir m s) = tracked_people s \<and>
   entries (reconfigure dir m s) = entries s \<and> exits (reconfigure dir m s) = exits s \<and>
   next_id (reconfigure dir m s) = next_id s"
  by (simp add: get_side_reconfigure update_tracking_reconfigure run_reconfigure)
     (simp add: reconfigure_def)

section \<open>Reset\<close>

text \<open>
  Claim C8. After \<^verbatim>\<open>reset\<close>, whatever the state was, \<^verbatim>\<open>entries\<close> and \<^verbatim>\<open>exits\<close> are 0,
  the registry is empty and \<^verbatim>\<open>next_id\<close> is 0, the value \<^verbatim>\<open>__init__\<close> gives it; so the
  next detection matches nothing and starts a track with id 0.
\<close>

theorem reset_fresh_start:
  "entries (reset s) = 0 \<and> exits (reset s) = 0 \<and> tracked_people (reset s) = [] \<and>
   next_id (reset s) = 0 \<and> next_id (reset s) = next_id (init name line dir) \<and>
   closest_id (reset s) p = None \<and>
   update_tracking (reset s) [p] =
     Inr ((reset s)\<lparr>tracked_people :=
                       [(0, \<lparr>position = p, last_side = get_side s (snd p),
                             frames_since_crossing = 999, frames_not_seen = 0\<rparr>)],
                     next_id := 1\<rparr>,
          [\<lparr>pos = p, pid = 0, crossing = None\<rparr>], [NewPerson 0])"
  by (simp add: reset_def init_def tick_simps)

end
